theory Spec2Isabelle
  imports Complex_Main "HOL-Library.Sublist"
begin

section \<open>Python strings\<close>

text \<open>
  A Python \<open>str\<close> is a sequence of code points. The model uses \<^typ>\<open>string\<close>, whose
  characters are the code points 0..255 (Latin-1); \<open>length\<close> counts code points, as
  Python's \<open>len\<close> does. The character classes below are those of CPython for this range:
  \<open>str.isspace\<close> (also the class \<open>\s\<close> of \<open>re\<close> and what \<open>str.strip()\<close> removes) and the
  class \<open>\w\<close> of \<open>re\<close> on \<open>str\<close> patterns (alphanumeric code points and the underscore).
\<close>

definition is_space :: "char \<Rightarrow> bool" where
  "is_space c \<longleftrightarrow>
     (let n = (of_char c :: nat)
      in (9 \<le> n \<and> n \<le> 13) \<or> (28 \<le> n \<and> n \<le> 32) \<or> n = 133 \<or> n = 160)"

definition is_word :: "char \<Rightarrow> bool" where
  "is_word c \<longleftrightarrow>
     (let n = (of_char c :: nat)
      in (48 \<le> n \<and> n \<le> 57) \<or> (65 \<le> n \<and> n \<le> 90) \<or> n = 95 \<or> (97 \<le> n \<and> n \<le> 122)
         \<or> n = 170 \<or> n = 178 \<or> n = 179 \<or> n = 181 \<or> n = 185 \<or> n = 186
         \<or> (188 \<le> n \<and> n \<le> 190) \<or> (192 \<le> n \<and> n \<le> 214)
         \<or> (216 \<le> n \<and> n \<le> 246) \<or> (248 \<le> n \<and> n \<le> 255))"

text \<open>\<open>s.strip()\<close>: leading and trailing white space removed.\<close>

definition strip :: "string \<Rightarrow> string" where
  "strip s = rev (dropWhile is_space (rev (dropWhile is_space s)))"

text \<open>
  \<open>s.upper()\<close>, as a list of code points: the upper-case forms of \<open>0xB5\<close> and \<open>0xFF\<close> lie
  outside Latin-1 and that of \<open>0xDF\<close> is the two letters \<open>SS\<close>.
\<close>

definition upper_cp :: "char \<Rightarrow> nat list" where
  "upper_cp c =
     (let n = (of_char c :: nat)
      in if 97 \<le> n \<and> n \<le> 122 then [n - 32]
         else if n = 181 then [924]
         else if n = 223 then [83, 83]
         else if 224 \<le> n \<and> n \<le> 254 \<and> n \<noteq> 247 then [n - 32]
         else if n = 255 then [376]
         else [n])"

definition upper :: "string \<Rightarrow> nat list" where
  "upper s = concat (map upper_cp s)"

definition code_points :: "string \<Rightarrow> nat list" where
  "code_points s = map of_char s"

text \<open>\<open>p in s\<close> on sequences: \<open>p\<close> occurs in \<open>s\<close> as a contiguous block.\<close>

fun py_in :: "'a list \<Rightarrow> 'a list \<Rightarrow> bool" where
  "py_in p [] = (p = [])"
| "py_in p (c # cs) = (prefix p (c # cs) \<or> py_in p cs)"

text \<open>The number of positions of \<open>s\<close> at which \<open>p\<close> starts.\<close>

fun occurrences :: "'a list \<Rightarrow> 'a list \<Rightarrow> nat" where
  "occurrences p [] = (if p = [] then 1 else 0)"
| "occurrences p (c # cs) = (if prefix p (c # cs) then 1 else 0) + occurrences p cs"

text \<open>
  \<open>s.replace(old, new)\<close>: the occurrences of \<open>old\<close> are replaced from left to right, the
  scan resuming after each replaced occurrence. With an empty \<open>old\<close>, Python puts \<open>new\<close>
  before every character and at the end.
\<close>

function replace_nonempty :: "string \<Rightarrow> string \<Rightarrow> string \<Rightarrow> string" where
  "replace_nonempty old new [] = []"
| "replace_nonempty old new (c # cs) =
     (if old \<noteq> [] \<and> prefix old (c # cs)
      then new @ replace_nonempty old new (drop (length old) (c # cs))
      else c # replace_nonempty old new cs)"
  by pat_completeness auto
termination
  by (relation "measure (\<lambda>(old, new, s). length s)") auto

definition replace :: "string \<Rightarrow> string \<Rightarrow> string \<Rightarrow> string" where
  "replace s old new =
     (if old = [] then new @ concat (map (\<lambda>c. c # new) s) else replace_nonempty old new s)"

text \<open>\<open>sep.join(xs)\<close>.\<close>

fun join :: "string \<Rightarrow> string list \<Rightarrow> string" where
  "join sep [] = []"
| "join sep [x] = x"
| "join sep (x # y # ys) = x @ sep @ join sep (y # ys)"

text \<open>\<open>s.split(sep)\<close> for a separator of one character: always at least one piece.\<close>

fun split_char :: "char \<Rightarrow> string \<Rightarrow> string list" where
  "split_char sep [] = [[]]"
| "split_char sep (c # cs) =
     (if c = sep then [] # split_char sep cs
      else (case split_char sep cs of
              p # ps \<Rightarrow> (c # p) # ps
            | [] \<Rightarrow> [[c]]))"

text \<open>\<open>str(n)\<close> for a natural number: its decimal digits.\<close>

function str_nat :: "nat \<Rightarrow> string" where
  "str_nat n =
     (if n < 10 then [char_of (48 + n)]
      else str_nat (n div 10) @ [char_of (48 + n mod 10)])"
  by pat_completeness auto
termination
  by (relation "measure id") auto

section \<open>Regular-expression substitution\<close>

text \<open>
  \<open>re.sub(pattern, repl, s)\<close> replaces the leftmost non-overlapping matches of the pattern:
  it looks for a match at the current position, and on failure copies one character and moves
  on; after a match it appends the expanded replacement and resumes at the end of the match.
  A pattern is given by its anchored matcher: for the text at the current position, the
  expanded replacement and the text left after the match, or \<open>None\<close> when the pattern does
  not match there. None of the patterns of this program matches the empty string, so the text
  left is always shorter; the test on the lengths only makes that visible to the recursion.
\<close>

type_synonym matcher = "string \<Rightarrow> (string \<times> string) option"

function re_sub :: "matcher \<Rightarrow> string \<Rightarrow> string" where
  "re_sub m [] = []"
| "re_sub m (c # cs) =
     (case m (c # cs) of
        None \<Rightarrow> c # re_sub m cs
      | Some (rep, rest) \<Rightarrow>
          if length rest \<le> length cs then rep @ re_sub m rest else c # re_sub m cs)"
  by pat_completeness auto
termination
  by (relation "measure (\<lambda>(m, s). length s)") auto

text \<open>
  Matching with \<open>re.IGNORECASE\<close> against an ASCII letter of the pattern: within Latin-1
  only the two ASCII forms of the letter match it.
\<close>

definition fold_case :: "char \<Rightarrow> nat" where
  "fold_case c = (let n = (of_char c :: nat) in if 65 \<le> n \<and> n \<le> 90 then n + 32 else n)"

fun ci_prefix :: "string \<Rightarrow> string \<Rightarrow> bool" where
  "ci_prefix [] s = True"
| "ci_prefix (p # ps) [] = False"
| "ci_prefix (p # ps) (c # cs) = (fold_case c = fold_case p \<and> ci_prefix ps cs)"

text \<open>\<open>(SELECT)(\?|\*)\<close> with \<open>re.IGNORECASE\<close>, replaced by \<open>\1 \2\<close>.\<close>

definition m_select :: matcher where
  "m_select s =
     (if ci_prefix ''SELECT'' s then
        (case drop 6 s of
           [] \<Rightarrow> None
         | c # rest \<Rightarrow>
             if c = CHR ''?'' \<or> c = CHR ''*'' then Some (take 6 s @ [CHR '' '', c], rest)
             else None)
      else None)"

text \<open>\<open>(WHERE)\{\<close> with \<open>re.IGNORECASE\<close>, replaced by \<open>\1 {\<close>.\<close>

definition m_where :: matcher where
  "m_where s =
     (if ci_prefix ''WHERE'' s then
        (case drop 5 s of
           [] \<Rightarrow> None
         | c # rest \<Rightarrow> if c = CHR ''{'' then Some (take 5 s @ '' {'', rest) else None)
      else None)"

text \<open>
  \<open>(progettoMuseo:\w+)\?(\w+)\<close>, replaced by \<open>\1 ?\2\<close>. Both \<open>\w+\<close> are greedy; since
  \<open>?\<close> is not a word character, giving back characters of the first run never helps, so the
  pattern matches exactly when the maximal run of word characters after the colon is not
  empty and is followed by \<open>?\<close> and one more word character.
\<close>

definition m_glue :: matcher where
  "m_glue s =
     (if prefix ''progettoMuseo:'' s then
        (let r = drop 14 s; w1 = takeWhile is_word r
         in case dropWhile is_word r of
              [] \<Rightarrow> None
            | c # r2 \<Rightarrow>
                if w1 \<noteq> [] \<and> c = CHR ''?'' \<and> takeWhile is_word r2 \<noteq> []
                then Some (''progettoMuseo:'' @ w1 @ '' ?'' @ takeWhile is_word r2,
                           dropWhile is_word r2)
                else None)
      else None)"

text \<open>\<open>\s+\<close>, replaced by one space.\<close>

definition m_spaces :: matcher where
  "m_spaces s =
     (case s of
        [] \<Rightarrow> None
      | c # r \<Rightarrow> if is_space c then Some ('' '', dropWhile is_space r) else None)"

text \<open>
  \<open>(\?\w+)\s*\}\<close>, replaced by \<open>\1 . }\<close>. Neither run can usefully give characters back:
  the brace is neither a word character nor white space.
\<close>

definition m_dot :: matcher where
  "m_dot s =
     (case s of
        [] \<Rightarrow> None
      | c # r \<Rightarrow>
          if c = CHR ''?'' then
            (let w = takeWhile is_word r
             in case dropWhile is_space (dropWhile is_word r) of
                  [] \<Rightarrow> None
                | d # r2 \<Rightarrow>
                    if w \<noteq> [] \<and> d = CHR ''}'' then Some (CHR ''?'' # w @ '' . }'', r2)
                    else None)
          else None)"

text \<open>
  \<open>(SELECT\s+[^\{]+)\{\<close> with \<open>re.IGNORECASE\<close>, replaced by \<open>\1 WHERE {\<close>. After the
  keyword, \<open>\s+\<close> and \<open>[^\{]+\<close> share the text \<open>t\<close> up to the next opening brace: a match
  needs that brace, a first character of \<open>t\<close> that is white space and a second character
  (which \<open>[^\{]+\<close> takes, \<open>\s+\<close> giving it back if it is white space too). The first
  group is the keyword with all of \<open>t\<close>.
\<close>

definition m_add_where :: matcher where
  "m_add_where s =
     (if ci_prefix ''SELECT'' s then
        (let r = drop 6 s; t = takeWhile (\<lambda>c. c \<noteq> CHR ''{'') r
         in case dropWhile (\<lambda>c. c \<noteq> CHR ''{'') r of
              [] \<Rightarrow> None
            | b # r2 \<Rightarrow>
                if 2 \<le> length t \<and> is_space (hd t) then Some (take 6 s @ t @ '' WHERE {'', r2)
                else None)
      else None)"

section \<open>The query repair: \<open>correct_sparql_syntax_advanced\<close>\<close>

definition prefix_marker :: string where
  "prefix_marker = ''PREFIX progettoMuseo:''"

definition prefix_declaration :: string where
  "prefix_declaration =
     ''PREFIX progettoMuseo: <http://www.semanticweb.org/lucreziamosca/ontologies/progettoMuseo#>''"

definition remove_newlines :: "string \<Rightarrow> string" where
  "remove_newlines q = replace (replace q [CHR 0x0A] '' '') [CHR 0x0D] '' ''"

definition add_prefix :: "string \<Rightarrow> string" where
  "add_prefix q = (if \<not> py_in prefix_marker q then prefix_declaration @ '' '' @ q else q)"

definition collapse_spaces :: "string \<Rightarrow> string" where
  "collapse_spaces q = strip (re_sub m_spaces q)"

definition add_where :: "string \<Rightarrow> string" where
  "add_where q =
     (if \<not> py_in (code_points ''WHERE'') (upper q) then re_sub m_add_where q else q)"

definition correct_sparql_syntax_advanced :: "string \<Rightarrow> string" where
  "correct_sparql_syntax_advanced query =
     (let query = remove_newlines query;
          query = add_prefix query;
          query = re_sub m_select query;
          query = re_sub m_where query;
          query = re_sub m_glue query;
          query = collapse_spaces query;
          query = re_sub m_dot query;
          query = add_where query;
          query = collapse_spaces query
      in query)"

section \<open>Prompts\<close>

definition newline :: char where
  "newline = CHR 0x0A"

text \<open>
  The static lines of the query-synthesis prompt (an f-string: its doubled braces stand for
  single ones); each is followed by a line break, and the serialized ontology and the closing
  line come after them.
\<close>

definition sparql_prompt_lines :: "string list" where
  \<open>sparql_prompt_lines =
    [''SEI UN GENERATORE DI QUERY SPARQL PER L'ONTOLOGIA DI UN MUSEO.'',
     ''DEVI GENERARE SOLO UNA QUERY SPARQL (IN UNA SOLA RIGA) SE LA DOMANDA RIGUARDA INFORMAZIONI NELL'ONTOLOGIA.'',
     ''SE LA DOMANDA NON '' @ [CHR 0xC8] @ '' ATTINENTE, RISPONDI 'NO_SPARQL'.'',
     ''REGOLE SINTATTICHE RIGOROSE:'',
     ''1) Usare: PREFIX progettoMuseo: <http://www.semanticweb.org/lucreziamosca/ontologies/progettoMuseo#>'',
     ''2) Query in UNA SOLA RIGA (niente a capo), forma: PREFIX progettoMuseo: <...> SELECT ?x WHERE { ... } LIMIT N'',
     ''3) Attento agli spazi:'',
     ''   - Dopo SELECT: es. SELECT ?autore'',
     ''   - Tra propriet'' @ [CHR 0xE0] @ '' e variabile: es. progettoMuseo:autoreOpera ?autore .'',
     ''   - Non incollare il '?' a 'progettoMuseo:'.'',
     ''   - Ogni tripla termina con un punto.'',
     ''4) Se non puoi generare una query valida, rispondi solo 'NO_SPARQL'.'',
     [],
     ''Esempi di Domande Specifiche e relative Query:'',
     ''1) Utente: Chi ha creato l'opera 'Afrodite di Milo'?'',
     ''   Risposta: PREFIX progettoMuseo: <http://www.semanticweb.org/lucreziamosca/ontologies/progettoMuseo#> SELECT ?autore WHERE { progettoMuseo:AfroditeDiMilo progettoMuseo:autoreOpera ?autore . } LIMIT 10'',
     ''2) Utente: Quali sono le tecniche utilizzate nelle opere?'',
     ''   Risposta: PREFIX progettoMuseo: <http://www.semanticweb.org/lucreziamosca/ontologies/progettoMuseo#> SELECT ?opera ?tecnica WHERE { ?opera progettoMuseo:tecnicaOpera ?tecnica . } LIMIT 100'',
     ''3) Utente: Quali sono le dimensioni delle opere?'',
     ''   Risposta: PREFIX progettoMuseo: <http://www.semanticweb.org/lucreziamosca/ontologies/progettoMuseo#> SELECT ?opera ?dimensione WHERE { ?opera progettoMuseo:dimensioneOpera ?dimensione . } LIMIT 100'',
     ''4) Utente: Quali opere sono esposte nella stanza Greca?'',
     ''   Risposta: PREFIX progettoMuseo: <http://www.semanticweb.org/lucreziamosca/ontologies/progettoMuseo#> SELECT ?opera WHERE { progettoMuseo:StanzaGrecia progettoMuseo:Espone ?opera . } LIMIT 100'',
     ''5) Utente: Quali sono le propriet'' @ [CHR 0xE0] @ '' e i tipi delle propriet'' @ [CHR 0xE0] @ '' nell'ontologia?'',
     ''   Risposta: PREFIX rdf: <http://www.w3.org/1999/02/22-rdf-syntax-ns#> PREFIX owl: <http://www.w3.org/2002/07/owl#> PREFIX progettoMuseo: <http://www.semanticweb.org/lucreziamosca/ontologies/progettoMuseo#> SELECT DISTINCT ?property ?type WHERE { ?property rdf:type ?type . FILTER(?type IN (owl:ObjectProperty, owl:DatatypeProperty)) }'',
     ''6) Utente: Recupera tutti i biglietti e i tipi di biglietto.'',
     ''   Risposta: PREFIX progettoMuseo: <http://www.semanticweb.org/lucreziamosca/ontologies/progettoMuseo#> SELECT ?biglietto ?tipoBiglietto WHERE { ?biglietto rdf:type progettoMuseo:Biglietto . ?biglietto progettoMuseo:tipoBiglietto ?tipoBiglietto . } LIMIT 100'',
     ''7) Utente: Recupera tutti i visitatori e i tour a cui partecipano.'',
     ''   Risposta: PREFIX progettoMuseo: <http://www.semanticweb.org/lucreziamosca/ontologies/progettoMuseo#> SELECT ?visitatore ?tour WHERE { ?visitatore progettoMuseo:Partecipazione_a_Evento ?tour . } LIMIT 100'',
     ''8) Utente: Recupera tutte le stanze tematiche e le opere esposte.'',
     ''   Risposta: PREFIX progettoMuseo: <http://www.semanticweb.org/lucreziamosca/ontologies/progettoMuseo#> SELECT ?stanza ?opera WHERE { ?stanza rdf:type progettoMuseo:Stanza_Tematica . ?stanza progettoMuseo:Espone ?opera . } LIMIT 100'',
     ''9) Utente: Recupera tutte le opere con materiale 'Marmo'.'',
     ''   Risposta: PREFIX progettoMuseo: <http://www.semanticweb.org/lucreziamosca/ontologies/progettoMuseo#> SELECT ?opera WHERE { ?opera progettoMuseo:materialeOpera "Marmo"@it . } LIMIT 100'',
     ''10) Utente: Recupera tutti i visitatori con data di nascita dopo il 2000.'',
     ''    Risposta: PREFIX progettoMuseo: <http://www.semanticweb.org/lucreziamosca/ontologies/progettoMuseo#> SELECT ?visitatore WHERE { ?visitatore rdf:type progettoMuseo:Visitatore_Individuale . ?visitatore progettoMuseo:dataDiNascitaVisitatore ?data . FILTER(?data > "2000-01-01T00:00:00"^^xsd:dateTime) . } LIMIT 100'',
     [],
     ''NUOVE REGOLE RIGUARDANTI LA POSIZIONE DELL'OPERA:'',
     ''- SE la domanda include richieste come "fammi vedere l'opera X", "mi fai vedere l'opera X", "portami all'opera X", "voglio vedere l'opera X" o simili, la query SPARQL DEVE restituire la posizione dell'opera includendo la propriet'' @ [CHR 0xE0] @ '' progettoMuseo:posizioneOpera.'',
     ''- SE la domanda include espressioni come "dove si trova l'opera X", "ubicazione dell'opera X" o simili, la query SPARQL NON deve restituire la propriet'' @ [CHR 0xE0] @ '' progettoMuseo:posizioneOpera, limitandosi al massimo a riportare la relazione esistente.'',
     [],
     ''Esempi Aggiuntivi:'',
     ''11) Utente: Fammi vedere l'opera 'Discobolo'.'',
     ''    Risposta: PREFIX progettoMuseo: <http://www.semanticweb.org/lucreziamosca/ontologies/progettoMuseo#> SELECT ?opera ?posizione WHERE { progettoMuseo:Discobolo progettoMuseo:posizioneOpera ?posizione . } LIMIT 10'',
     ''12) Utente: Mi fai vedere l'opera 'Gioconda'?'',
     ''    Risposta: PREFIX progettoMuseo: <http://www.semanticweb.org/lucreziamosca/ontologies/progettoMuseo#> SELECT ?opera ?posizione WHERE { progettoMuseo:Gioconda progettoMuseo:posizioneOpera ?posizione . } LIMIT 10'',
     ''13) Utente: Portami all'opera 'Autoritratto'.'',
     ''    Risposta: PREFIX progettoMuseo: <http://www.semanticweb.org/lucreziamosca/ontologies/progettoMuseo#> SELECT ?opera ?posizione WHERE { progettoMuseo:Autoritratto progettoMuseo:posizioneOpera ?posizione . } LIMIT 10'',
     ''14) Utente: Dove si trova l'opera 'La Notte Stellata'?'',
     ''    Risposta: PREFIX progettoMuseo: <http://www.semanticweb.org/lucreziamosca/ontologies/progettoMuseo#> SELECT ?opera WHERE { progettoMuseo:LaNotteStellata ?rel ?info . FILTER(?rel != progettoMuseo:posizioneOpera) } LIMIT 10'',
     ''15) Utente: Qual '' @ [CHR 0xE8] @ '' l'ubicazione dell'opera 'Ramo Di Mandorlo Fiorito'?'',
     ''    Risposta: PREFIX progettoMuseo: <http://www.semanticweb.org/lucreziamosca/ontologies/progettoMuseo#> SELECT ?opera WHERE { progettoMuseo:RamoDiMandorloFiorito ?rel ?info . FILTER(?rel != progettoMuseo:posizioneOpera) } LIMIT 10'',
     [],
     ''ECCO L'ONTOLOGIA (TURTLE) PER CONTESTO:'']\<close>

definition create_system_prompt_for_sparql :: "string \<Rightarrow> string" where
  "create_system_prompt_for_sparql ontology_turtle =
     concat (map (\<lambda>l. l @ [newline]) sparql_prompt_lines)
       @ ontology_turtle @ [newline] @ ''FINE ONTOLOGIA.'' @ [newline]"

definition create_system_prompt_for_guide :: string where
  "create_system_prompt_for_guide =
     ''SEI UNA GUIDA MUSEALE VIRTUALE. ''
     @ ''RISPONDI IN MODO DISCORSIVO E NATURALE (circa 100 parole), SENZA SALUTI O INTRODUZIONI PROLISSE. ''
     @ ''SE HAI RISULTATI SPARQL, USALI; SE NON CI SONO, RISPONDI BASANDOTI SULLE TUE CONOSCENZE. ''
     @ ''QUALORA LA DOMANDA CONTENGA ESPRESSIONI COME 'fammi vedere', 'portami', 'mi fai vedere', O SIMILI, ''
     @ ''TRADUCI LA RICHIESTA IN UN INVITO ALL'AZIONE, AD ESEMPIO 'Adesso ti accompagno all'opera', ''
     @ ''SENZA RIPETERE DETTAGLI SPAZIALI O TECNICI (ES. COORDINATE, DISTANZE, POSITIONI FISICHE). ''
     @ ''PER ALTRE DOMANDE, RISPONDI IN MODO DESCRITTIVO MA SENZA INCLUDERE INFORMAZIONI TECNICHE SULLA POSIZIONE.''"

section \<open>Result rows of the graph store\<close>

text \<open>
  An RDF term is a string with a kind; \<open>str\<close> gives its text. A result row of a SELECT
  query carries the projected variable names (its \<open>labels\<close>, distinct, in the order of the
  projection) and for each the bound term, or \<open>None\<close> when the variable is unbound in that
  row. Iterating the result of an ASK, CONSTRUCT or DESCRIBE query yields a truth value or a
  triple instead: values that have no \<open>labels\<close>.
\<close>

datatype rdf_term = URIRef string | BNode string | Literal string

fun str_term :: "rdf_term \<Rightarrow> string" where
  "str_term (URIRef s) = s"
| "str_term (BNode s) = s"
| "str_term (Literal s) = s"

type_synonym result_row = "(string \<times> rdf_term option) list"

datatype result_item = Row result_row | Other

definition labels :: "result_row \<Rightarrow> string list" where
  "labels row = map fst row"

text \<open>\<open>str(v)\<close> for the value of a binding: \<open>str(None)\<close> is \<open>None\<close> spelled out.\<close>

definition str_value :: "rdf_term option \<Rightarrow> string" where
  "str_value v = (case v of None \<Rightarrow> ''None'' | Some t \<Rightarrow> str_term t)"

text \<open>
  The test of the extraction loop on one row and one variable:
  \<open>var in row.labels and row[var] is not None and str(row[var]).strip() != ""\<close>,
  and the value the loop then takes, \<open>str(row[var]).strip()\<close>.
\<close>

definition nonempty_binding :: "string \<Rightarrow> result_row \<Rightarrow> bool" where
  "nonempty_binding var row \<longleftrightarrow>
     var \<in> set (labels row) \<and>
     (case map_of row var of
        Some (Some t) \<Rightarrow> strip (str_term t) \<noteq> []
      | _ \<Rightarrow> False)"

definition binding_point :: "string \<Rightarrow> result_row \<Rightarrow> string" where
  "binding_point var row =
     (case map_of row var of
        Some (Some t) \<Rightarrow> strip (str_term t)
      | _ \<Rightarrow> [])"

text \<open>
  The loop over the rows that sets \<open>point\<close> (initially the empty string) and leaves at the
  first row in which either test succeeds.
\<close>

fun extract_point :: "result_row list \<Rightarrow> string" where
  "extract_point [] = []"
| "extract_point (row # rows) =
     (if nonempty_binding ''p'' row then binding_point ''p'' row
      else if nonempty_binding ''posizione'' row then binding_point ''posizione'' row
      else extract_point rows)"

text \<open>The numbered rendering of the rows for the answer prompt.\<close>

definition render_row :: "result_row \<Rightarrow> string" where
  "render_row row = join '', '' (map (\<lambda>(var, v). var @ ''='' @ str_value v) row)"

definition results_str :: "result_row list \<Rightarrow> string" where
  "results_str rows =
     join [newline] (map (\<lambda>(idx, row). str_nat (idx + 1) @ '') '' @ render_row row) (enumerate 0 rows))"

fun rows_of :: "result_item list \<Rightarrow> result_row list option" where
  "rows_of [] = Some []"
| "rows_of (Row r # items) = map_option (\<lambda>rs. r # rs) (rows_of items)"
| "rows_of (Other # items) = None"

section \<open>External services and the calls made to them\<close>

text \<open>
  The generation, language-identification and translation services, the query parser and the
  graph store are outside the program. Each place where the program calls one of them is a
  field of \<open>services\<close>: the outcome of that call as a function of its arguments, \<open>None\<close>
  when the call (or the reading of its reply inside the same \<open>try\<close>) raises. The two
  generation calls and the two language-identification calls are separate fields, so that
  the outcomes of two calls to one service are independent. Every function of the program
  returns the calls it made, in order, next to its result.
\<close>

record gen_call =
  system_content :: string
  user_content :: string
  call_max_tokens :: int
  call_temperature :: real

datatype event =
    Serialize
  | Generate gen_call
  | Repair string
  | Validate string
  | Execute string
  | Classify string
  | Translate string string

record services =
  serialize :: "string option"
  generate_query :: "gen_call \<Rightarrow> string option"
  generate_answer :: "gen_call \<Rightarrow> string option"
  parse_query :: "string \<Rightarrow> bool"
  graph_query :: "string \<Rightarrow> result_item list option"
  classify_question :: "string \<Rightarrow> string option"
  classify_answer :: "string \<Rightarrow> string option"
  translation :: "string \<Rightarrow> string \<Rightarrow> string option"

section \<open>Language normalization: \<open>classify_and_translate\<close>\<close>

definition TRANSLATOR_MODEL_PREFIX :: string where
  "TRANSLATOR_MODEL_PREFIX = ''Helsinki-NLP/opus-mt''"

definition classify_and_translate :: "services \<Rightarrow> string \<Rightarrow> string \<Rightarrow> event list \<times> string" where
  "classify_and_translate sv question_text model_answer_text =
     (let question_lang = (case classify_question sv question_text of
                             Some l \<Rightarrow> l | None \<Rightarrow> ''en'');
          answer_lang = (case classify_answer sv model_answer_text of
                           Some l \<Rightarrow> l | None \<Rightarrow> ''it'');
          detections = [Classify question_text, Classify model_answer_text]
      in if question_lang = answer_lang then (detections, model_answer_text)
         else
           (let translator_model =
                  TRANSLATOR_MODEL_PREFIX @ ''-'' @ answer_lang @ ''-'' @ question_lang;
                translated_answer =
                  (case translation sv translator_model model_answer_text of
                     Some t \<Rightarrow> t
                   | None \<Rightarrow> model_answer_text)
            in (detections @ [Translate translator_model model_answer_text],
                translated_answer)))"

section \<open>The endpoint \<open>/assistant\<close>\<close>

record assistant_request =
  message :: string
  max_tokens :: int
  temperature :: real

record assistant_response =
  query :: "string option"
  response :: string
  point :: string

text \<open>
  What the caller gets instead of a response: an \<open>HTTPException\<close> raised by the program,
  or the \<open>AttributeError\<close> that reading \<open>labels\<close> of a value that is not a result row
  raises, which nothing catches.
\<close>

datatype failure = HTTPException nat string | AttributeError

text \<open>Step 1, the generation call: the candidate \<open>possible_query\<close>.\<close>

definition generate_sparql :: "services \<Rightarrow> string \<Rightarrow> event list \<times> string" where
  "generate_sparql sv user_message =
     (let ontology_turtle = (case serialize sv of Some t \<Rightarrow> t | None \<Rightarrow> []);
          system_prompt_sparql = create_system_prompt_for_sparql ontology_turtle;
          call = \<lparr>system_content = system_prompt_sparql, user_content = user_message,
                  call_max_tokens = 512, call_temperature = 0.2\<rparr>;
          possible_query = (case generate_query sv call of
                              Some content \<Rightarrow> strip content
                            | None \<Rightarrow> ''NO_SPARQL'')
      in ([Serialize, Generate call], possible_query))"

text \<open>Step 1, the sentinel test, the repair and the validation: \<open>generated_query\<close>.\<close>

definition resolve_query :: "services \<Rightarrow> string \<Rightarrow> event list \<times> string option" where
  "resolve_query sv possible_query =
     (if prefix (code_points ''NO_SPARQL'') (upper possible_query) then ([], None)
      else
        (let advanced_corrected = correct_sparql_syntax_advanced possible_query
         in ([Repair possible_query, Validate advanced_corrected],
             if parse_query sv advanced_corrected then Some advanced_corrected else None)))"

text \<open>The truth value Python gives \<open>generated_query\<close>: neither \<open>None\<close> nor empty.\<close>

definition truthy :: "string option \<Rightarrow> bool" where
  "truthy q \<longleftrightarrow> (case q of None \<Rightarrow> False | Some s \<Rightarrow> s \<noteq> [])"

text \<open>Step 2: the query is run; a failure of the store counts as no rows.\<close>

definition execute_query :: "services \<Rightarrow> string option \<Rightarrow> event list \<times> result_item list" where
  "execute_query sv generated_query =
     (case generated_query of
        None \<Rightarrow> ([], [])
      | Some q \<Rightarrow>
          if q \<noteq> [] then ([Execute q], case graph_query sv q of Some rs \<Rightarrow> rs | None \<Rightarrow> [])
          else ([], []))"

text \<open>
  Step 3 up to the generation call: the prompt \<open>second_prompt\<close> and \<open>point\<close>. The three
  branches are those of the source: a query with results, a query without, no query.
\<close>

definition no_query_prompt :: "string \<Rightarrow> string" where
  "no_query_prompt user_message =
     create_system_prompt_for_guide @ [newline, newline]
     @ ''Domanda utente: '' @ user_message @ [newline]
     @ ''Nessuna query SPARQL generata. Rispondi come puoi, riarrangiando le tue conoscenze.''"

definition answer_prompt ::
    "string \<Rightarrow> string option \<Rightarrow> result_item list \<Rightarrow> failure + string \<times> string" where
  "answer_prompt user_message generated_query results =
     (case generated_query of
        None \<Rightarrow> Inr (no_query_prompt user_message, [])
      | Some q \<Rightarrow>
          if q \<noteq> [] \<and> results \<noteq> [] then
            (case rows_of results of
               None \<Rightarrow> Inl AttributeError
             | Some rows \<Rightarrow>
                 Inr (create_system_prompt_for_guide @ [newline, newline]
                      @ ''Domanda utente: '' @ user_message @ [newline]
                      @ ''Query generata: '' @ q @ [newline]
                      @ ''Risultati:'' @ [newline] @ results_str rows @ [newline]
                      @ ''Rispondi in modo breve (max ~50 parole).'',
                      extract_point rows))
          else if q \<noteq> [] \<and> results = [] then
            Inr (create_system_prompt_for_guide @ [newline, newline]
                 @ ''Domanda utente: '' @ user_message @ [newline]
                 @ ''Query generata: '' @ q @ [newline]
                 @ ''Nessun risultato dalla query. Prova comunque a rispondere con le tue conoscenze.'',
                 [])
          else Inr (no_query_prompt user_message, []))"

text \<open>
  The answer-phase call. The request's \<open>max_tokens\<close> and \<open>temperature\<close> are read into
  local variables at the top of the endpoint and written to the log; the call itself is made
  with the literals \<open>512\<close> and \<open>0.5\<close>.
\<close>

definition answer_call :: "string \<Rightarrow> gen_call" where
  "answer_call second_prompt =
     \<lparr>system_content = second_prompt, user_content = ''Fornisci la risposta finale.'',
      call_max_tokens = 512, call_temperature = 0.5\<rparr>"

definition answer_failure :: failure where
  "answer_failure =
     HTTPException 500 ''Errore nella generazione della risposta in linguaggio naturale.''"

text \<open>Step 4, the last line: the escaped and the plain double quotes are removed.\<close>

definition strip_quotes :: "string \<Rightarrow> string" where
  "strip_quotes final_ans = replace (replace final_ans [CHR 0x5C, CHR 0x22] []) [CHR 0x22] []"

text \<open>
  Steps 1 to 3, up to the answer-phase call: the calls made so far and, unless an exception
  escapes, the query kept, the prompt of the answer phase and the point.
\<close>

definition prepare_answer ::
    "services \<Rightarrow> assistant_request \<Rightarrow> event list \<times> (failure + string option \<times> string \<times> string)" where
  "prepare_answer sv req =
     (let user_message = message req;
          (ev1, possible_query) = generate_sparql sv user_message;
          (ev2, generated_query) = resolve_query sv possible_query;
          (ev3, results) = execute_query sv generated_query
      in (ev1 @ ev2 @ ev3,
          case answer_prompt user_message generated_query results of
            Inl err \<Rightarrow> Inl err
          | Inr (second_prompt, point_value) \<Rightarrow>
              Inr (generated_query, second_prompt, point_value)))"

definition assistant_endpoint ::
    "services \<Rightarrow> assistant_request \<Rightarrow> event list \<times> (failure + assistant_response)" where
  "assistant_endpoint sv req =
     (case prepare_answer sv req of
        (evs, Inl err) \<Rightarrow> (evs, Inl err)
      | (evs, Inr (generated_query, second_prompt, point_value)) \<Rightarrow>
          (let call = answer_call second_prompt
           in case generate_answer sv call of
                None \<Rightarrow> (evs @ [Generate call], Inl answer_failure)
              | Some content \<Rightarrow>
                  (let final_answer = strip content;
                       (ev4, final_ans) = classify_and_translate sv (message req) final_answer;
                       final_ans = strip_quotes final_ans
                   in (evs @ [Generate call] @ ev4,
                       Inr \<lparr>query = generated_query, response = final_ans,
                            point = point_value\<rparr>))))"

section \<open>The endpoint \<open>/query_stanze\<close>\<close>

record opera_entry =
  nome :: string
  punto :: string

record stanza =
  roomName :: string
  entries :: "opera_entry list"

definition query_str :: string where
  "query_str =
     ''PREFIX progettoMuseo: <http://www.semanticweb.org/lucreziamosca/ontologies/progettoMuseo#> ''
     @ ''SELECT ?stanza ?opera ?p WHERE { ?opera progettoMuseo:'' @ [CHR 0xE8] @ ''Esposto ?stanza. ''
     @ ''OPTIONAL { ?opera progettoMuseo:posizioneOpera ?p. } }''"

text \<open>\<open>uri.split("#")[-1].strip() if "#" in uri else uri\<close>.\<close>

definition local_name :: "string \<Rightarrow> string" where
  "local_name uri =
     (if py_in ''#'' uri then strip (last (split_char (CHR ''#'') uri)) else uri)"

text \<open>
  The body of the loop for one item of the result: the room's local name and the entry, or
  \<open>None\<close> when a lookup raises (a missing variable, or an item that is not a row); the
  \<open>try\<close> around the loop turns that into the status 500.
\<close>

definition row_entry :: "result_item \<Rightarrow> (string \<times> opera_entry) option" where
  "row_entry item =
     (case item of
        Other \<Rightarrow> None
      | Row row \<Rightarrow>
          (case (map_of row ''stanza'', map_of row ''opera'', map_of row ''p'') of
             (Some stanza_term, Some opera_term, Some p) \<Rightarrow>
               (let stanza_local = local_name (str_value stanza_term);
                    opera_local = local_name (str_value opera_term);
                    punto_value = (case p of Some t \<Rightarrow> str_term t | None \<Rightarrow> [])
                in Some (stanza_local, \<lparr>nome = opera_local, punto = punto_value\<rparr>))
           | _ \<Rightarrow> None))"

text \<open>\<open>temp_dict\<close>: a dictionary keeps its keys in the order of their first insertion.\<close>

fun dict_append ::
    "(string \<times> opera_entry list) list \<Rightarrow> string \<Rightarrow> opera_entry \<Rightarrow> (string \<times> opera_entry list) list" where
  "dict_append [] k e = [(k, [e])]"
| "dict_append ((k', es) # d) k e =
     (if k' = k then (k', es @ [e]) # d else (k', es) # dict_append d k e)"

fun group_rows ::
    "(string \<times> opera_entry list) list \<Rightarrow> result_item list \<Rightarrow> (string \<times> opera_entry list) list option" where
  "group_rows d [] = Some d"
| "group_rows d (item # items) =
     (case row_entry item of
        None \<Rightarrow> None
      | Some (k, e) \<Rightarrow> group_rows (dict_append d k e) items)"

definition query_stanze_endpoint :: "services \<Rightarrow> event list \<times> (failure + stanza list)" where
  "query_stanze_endpoint sv =
     (let corrected_query = correct_sparql_syntax_advanced query_str
      in if \<not> parse_query sv corrected_query then
           ([Repair query_str, Validate corrected_query],
            Inl (HTTPException 400 ''Query SPARQL non valida.''))
         else
           (let evs = [Repair query_str, Validate corrected_query, Execute corrected_query];
                internal = HTTPException 500 ''Errore nell'esecuzione della query SPARQL.''
            in case graph_query sv corrected_query of
                 None \<Rightarrow> (evs, Inl internal)
               | Some items \<Rightarrow>
                   (case group_rows [] items of
                      None \<Rightarrow> (evs, Inl internal)
                    | Some temp_dict \<Rightarrow>
                        (evs, Inr (map (\<lambda>(room_name, es). \<lparr>roomName = room_name, entries = es\<rparr>)
                                       temp_dict)))))"

section \<open>Notions used to state the properties\<close>

text \<open>The calls that work on a query: its repair, its validation and its execution.\<close>

definition is_query_work :: "event \<Rightarrow> bool" where
  "is_query_work e =
     (case e of Repair _ \<Rightarrow> True | Validate _ \<Rightarrow> True | Execute _ \<Rightarrow> True | _ \<Rightarrow> False)"

text \<open>The token budget and the temperature of each generation call, in order.\<close>

definition generation_parameters :: "event list \<Rightarrow> (int \<times> real) list" where
  "generation_parameters evs =
     concat (map (\<lambda>e. case e of Generate c \<Rightarrow> [(call_max_tokens c, call_temperature c)]
                          | _ \<Rightarrow> []) evs)"

text \<open>
  The location rule in its two-pass reading: the first non-empty \<open>p\<close> of the whole result,
  and only if there is none the first non-empty \<open>posizione\<close>.
\<close>

definition first_nonempty :: "string \<Rightarrow> result_row list \<Rightarrow> string option" where
  "first_nonempty var rows =
     (case filter (nonempty_binding var) rows of
        [] \<Rightarrow> None
      | row # _ \<Rightarrow> Some (binding_point var row))"

definition two_pass_point :: "result_row list \<Rightarrow> string" where
  "two_pass_point rows =
     (case first_nonempty ''p'' rows of
        Some v \<Rightarrow> v
      | None \<Rightarrow> (case first_nonempty ''posizione'' rows of Some v \<Rightarrow> v | None \<Rightarrow> []))"

text \<open>The part of an identifier after its last separator; all of it when it has none.\<close>

definition after_last :: "char \<Rightarrow> string \<Rightarrow> string" where
  "after_last sep s = rev (takeWhile (\<lambda>c. c \<noteq> sep) (rev s))"

text \<open>
  Services whose replies do not depend on the arguments of the call, for concrete runs: the
  ontology cannot be serialized, and the other call sites reply as given.
\<close>

definition scripted ::
    "string option \<Rightarrow> string option \<Rightarrow> bool \<Rightarrow> result_item list option \<Rightarrow>
     string option \<Rightarrow> string option \<Rightarrow> string option \<Rightarrow> services" where
  "scripted q a valid rows ql al tr =
     \<lparr>serialize = None, generate_query = (\<lambda>_. q), generate_answer = (\<lambda>_. a),
      parse_query = (\<lambda>_. valid), graph_query = (\<lambda>_. rows),
      classify_question = (\<lambda>_. ql), classify_answer = (\<lambda>_. al),
      translation = (\<lambda>_ _. tr)\<rparr>"

text \<open>The dictionary \<open>d\<close> has the entry \<open>e\<close> under the key \<open>k\<close>.\<close>

definition holds :: "(string \<times> opera_entry list) list \<Rightarrow> string \<Rightarrow> opera_entry \<Rightarrow> bool" where
  "holds d k e \<longleftrightarrow> (\<exists>es. (k, es) \<in> set d \<and> e \<in> set es)"

text \<open>A result of the rooms query with two rows, for concrete runs.\<close>

definition museum_rows :: "result_item list" where
  "museum_rows =
     [Row [(''stanza'', Some (URIRef ''http://m#StanzaItalia'')),
           (''opera'', Some (URIRef ''http://m#David '')),
           (''p'', Some (Literal ''(0.586, 0, -0.1)''))],
      Row [(''stanza'', Some (URIRef ''http://m#StanzaGrecia'')),
           (''opera'', Some (URIRef ''urn:Discobolo'')),
           (''p'', None)]]"

subsection \<open>The answer text\<close>

text \<open>
  The text without its double quotes, as the property words it: every occurrence of the
  escaped double quote (a backslash and a double quote) and every plain double quote is left
  out, and every other character is kept in its place.
\<close>

fun without_double_quotes :: "string \<Rightarrow> string" where
  "without_double_quotes [] = []"
| "without_double_quotes [c] = (if c = CHR 0x22 then [] else [c])"
| "without_double_quotes (c # d # s) =
     (if c = CHR 0x5C \<and> d = CHR 0x22 then without_double_quotes s
      else if c = CHR 0x22 then without_double_quotes (d # s)
      else c # without_double_quotes (d # s))"

text \<open>
  The normalized answer of a request: the answer that the generation call returns, stripped
  and put into the language of the question; \<open>None\<close> when the request fails before.
\<close>

definition normalized_answer :: "services \<Rightarrow> assistant_request \<Rightarrow> string option" where
  "normalized_answer sv req =
     (case snd (prepare_answer sv req) of
        Inl err \<Rightarrow> None
      | Inr (generated_query, second_prompt, point_value) \<Rightarrow>
          (case generate_answer sv (answer_call second_prompt) of
             None \<Rightarrow> None
           | Some content \<Rightarrow>
               Some (snd (classify_and_translate sv (message req) (strip content)))))"

subsection \<open>Patterns in a text\<close>

text \<open>The test \<open>P\<close> holds of the text that starts at some position of \<open>s\<close>, its end included.\<close>

fun anywhere :: "(string \<Rightarrow> bool) \<Rightarrow> string \<Rightarrow> bool" where
  "anywhere P [] = P []"
| "anywhere P (c # cs) = (P (c # cs) \<or> anywhere P cs)"

text \<open>The pattern of a matcher matches at the start of a text.\<close>

definition matches :: "matcher \<Rightarrow> string \<Rightarrow> bool" where
  "matches m s \<longleftrightarrow> m s \<noteq> None"

text \<open>Every match of the matcher consumes at least one character.\<close>

definition shrinks :: "matcher \<Rightarrow> bool" where
  "shrinks m \<longleftrightarrow> (\<forall>s rep rest. m s = Some (rep, rest) \<longrightarrow> length rest < length s)"

text \<open>
  Patterns without white space, at least six characters long, not starting with a dot: a
  match lies before any white space of the text and stays a match when the text goes on.
\<close>

definition solid :: "(string \<Rightarrow> bool) \<Rightarrow> bool" where
  "solid P \<longleftrightarrow>
     (\<forall>u k z. is_space k \<longrightarrow> P (u @ k # z) \<longrightarrow> P u) \<and>
     (\<forall>u z. P u \<longrightarrow> P (u @ z)) \<and>
     (\<forall>u. P u \<longrightarrow> 6 \<le> length u) \<and>
     (\<forall>z. \<not> P (CHR ''.'' # z))"

text \<open>Patterns without white space that the empty text does not match.\<close>

definition tight :: "(string \<Rightarrow> bool) \<Rightarrow> bool" where
  "tight P \<longleftrightarrow>
     (\<forall>u k z. is_space k \<longrightarrow> P (u @ k # z) \<longrightarrow> P u) \<and>
     (\<forall>u z. P u \<longrightarrow> P (u @ z)) \<and> \<not> P []"

text \<open>Every white-space character is a space, and none follows another.\<close>

fun single_spaced :: "string \<Rightarrow> bool" where
  "single_spaced [] = True"
| "single_spaced [c] = (is_space c \<longrightarrow> c = CHR '' '')"
| "single_spaced (c # d # r) =
     ((is_space c \<longrightarrow> c = CHR '' '' \<and> \<not> is_space d) \<and> single_spaced (d # r))"

text \<open>
  The namespace name after white space, \<open>\s+progettoMuseo:\<close>, and the keyword before them,
  \<open>PREFIX\s+progettoMuseo:\<close>, at the start of a text. The marker that the repair looks for is
  the case of a single space.
\<close>

definition spaced_name :: "string \<Rightarrow> bool" where
  "spaced_name r \<longleftrightarrow>
     (case r of
        [] \<Rightarrow> False
      | k # r' \<Rightarrow> is_space k \<and> prefix ''progettoMuseo:'' (dropWhile is_space r'))"

definition spaced_marker :: "string \<Rightarrow> bool" where
  "spaced_marker s \<longleftrightarrow> prefix ''PREFIX'' s \<and> spaced_name (drop 6 s)"

text \<open>What the replacement of the line breaks makes of one character.\<close>

definition blank :: "char \<Rightarrow> char" where
  "blank c = (if c = CHR 0x0A \<or> c = CHR 0x0D then CHR '' '' else c)"

section \<open>The location point\<close>

lemmas point_defs = nonempty_binding_def binding_point_def labels_def strip_def is_space_def

lemma extract_point_skip:
  "\<forall>row\<in>set pre. \<not> nonempty_binding ''p'' row \<and> \<not> nonempty_binding ''posizione'' row
   \<Longrightarrow> extract_point (pre @ rows) = extract_point rows"
  by (induction pre) auto

text \<open>
  Claim C1, as the code has it: the extraction returns the point of the first row, in order,
  that has a non-empty \<open>p\<close> or a non-empty \<open>posizione\<close> binding. Of that row it takes the
  stripped \<open>p\<close> if the row has one, otherwise the stripped \<open>posizione\<close>; rows after it are
  not looked at, and the result is empty when no row has either binding.
\<close>

theorem extract_point_first_hit:
  assumes "\<forall>r\<in>set pre. \<not> nonempty_binding ''p'' r \<and> \<not> nonempty_binding ''posizione'' r"
  shows "extract_point pre = []
       \<and> (nonempty_binding ''p'' row \<longrightarrow>
            extract_point (pre @ row # post) = binding_point ''p'' row)
       \<and> (\<not> nonempty_binding ''p'' row \<and> nonempty_binding ''posizione'' row \<longrightarrow>
            extract_point (pre @ row # post) = binding_point ''posizione'' row)"
  using extract_point_skip[OF assms, of "[]"] extract_point_skip[OF assms, of "row # post"]
  by simp

theorem extract_point_first_hit_witness:
  "\<not> nonempty_binding ''p'' [(''opera'', Some (URIRef ''http://m#David'')), (''p'', None)]
   \<and> \<not> nonempty_binding ''posizione'' [(''opera'', Some (URIRef ''http://m#David'')), (''p'', None)]
   \<and> extract_point [[(''opera'', Some (URIRef ''http://m#David'')), (''p'', None)]] = []
   \<and> nonempty_binding ''p'' [(''p'', Some (Literal '' (0, 0, 0.77) ''))]
   \<and> extract_point ([[(''opera'', Some (URIRef ''http://m#David'')), (''p'', None)]]
        @ [(''p'', Some (Literal '' (0, 0, 0.77) ''))] # [[(''p'', Some (Literal ''(1, 1, 1)''))]])
       = ''(0, 0, 0.77)''
   \<and> \<not> nonempty_binding ''p'' [(''posizione'', Some (Literal ''(2, 0, 2)''))]
   \<and> nonempty_binding ''posizione'' [(''posizione'', Some (Literal ''(2, 0, 2)''))]
   \<and> extract_point ([[(''opera'', Some (URIRef ''http://m#David'')), (''p'', None)]]
        @ [(''posizione'', Some (Literal ''(2, 0, 2)''))] # [[(''p'', Some (Literal ''(1, 1, 1)''))]])
       = ''(2, 0, 2)''"
  using extract_point_first_hit
    [of "[[(''opera'', Some (URIRef ''http://m#David'')), (''p'', None)]]"
        "[(''p'', Some (Literal '' (0, 0, 0.77) ''))]" "[[(''p'', Some (Literal ''(1, 1, 1)''))]]"]
    extract_point_first_hit
    [of "[[(''opera'', Some (URIRef ''http://m#David'')), (''p'', None)]]"
        "[(''posizione'', Some (Literal ''(2, 0, 2)''))]" "[[(''p'', Some (Literal ''(1, 1, 1)''))]]"]
  by (simp add: point_defs)

text \<open>
  The two-pass reading of claim C1 fails: a row that binds only \<open>posizione\<close> and comes
  before a row that binds \<open>p\<close> decides the point.
\<close>

theorem two_pass_point_counterexample:
  "extract_point [[(''posizione'', Some (Literal ''(2, 0, 2)''))],
                  [(''p'', Some (Literal ''(1, 1, 1)''))]]
     = ''(2, 0, 2)''
   \<and> two_pass_point [[(''posizione'', Some (Literal ''(2, 0, 2)''))],
                     [(''p'', Some (Literal ''(1, 1, 1)''))]]
     = ''(1, 1, 1)''"
  by (simp add: point_defs two_pass_point_def first_nonempty_def)

section \<open>The endpoint \<open>/assistant\<close>: properties\<close>

lemmas run_defs = assistant_endpoint_def prepare_answer_def generate_sparql_def resolve_query_def
  execute_query_def answer_prompt_def classify_and_translate_def scripted_def Let_def
  answer_call_def upper_def upper_cp_def code_points_def strip_def is_space_def

text \<open>
  Claim C2 fails on the code: the answer-phase call is made with the literals \<open>512\<close> and
  \<open>0.5\<close> whatever the request asks for. Here the request asks for \<open>100\<close> tokens and
  the temperature \<open>0.9\<close>, and the two generation calls are made with \<open>(512, 0.2)\<close> and
  \<open>(512, 0.5)\<close>.
\<close>

theorem answer_call_parameters_fixed:
  "generation_parameters (fst (assistant_endpoint
      (scripted None (Some ''Benvenuto'') False None (Some ''it'') (Some ''it'') None)
      \<lparr>message = ''Ciao'', max_tokens = 100, temperature = 0.9\<rparr>))
   = [(512, 0.2), (512, 0.5)]"
  by (simp add: run_defs generation_parameters_def)

text \<open>
  Claim C3: when the response of a request has no query (its \<open>query\<close> field is \<open>None\<close>),
  its \<open>point\<close> field is the empty string.
\<close>

theorem absent_query_has_empty_point:
  "snd (assistant_endpoint sv req) = Inr r \<Longrightarrow> query r = None \<Longrightarrow> point r = []"
  by (auto simp: assistant_endpoint_def prepare_answer_def Let_def answer_prompt_def
           split: prod.splits sum.splits option.splits if_splits)

theorem absent_query_has_empty_point_witness:
  "snd (assistant_endpoint
          (scripted (Some ''SELECT ?p WHERE'') (Some ''Non lo so.'') False
             (Some [Row [(''p'', Some (Literal ''(1, 1, 1)''))]]) None None None)
          \<lparr>message = ''Dove?'', max_tokens = 512, temperature = 0.5\<rparr>)
     = Inr \<lparr>query = None, response = ''Non lo so.'', point = []\<rparr>
   \<and> query \<lparr>query = None, response = ''Non lo so.'', point = []\<rparr> = None
   \<and> point \<lparr>query = None, response = ''Non lo so.'', point = []\<rparr> = []"
  using absent_query_has_empty_point
    [of "scripted (Some ''SELECT ?p WHERE'') (Some ''Non lo so.'') False
           (Some [Row [(''p'', Some (Literal ''(1, 1, 1)''))]]) None None None"
        "\<lparr>message = ''Dove?'', max_tokens = 512, temperature = 0.5\<rparr>"
        "\<lparr>query = None, response = ''Non lo so.'', point = []\<rparr>"]
  by (simp add: run_defs strip_quotes_def replace_def)

text \<open>
  Claim C4: when the answer-phase generation call raises, the endpoint ends with the
  service error of status 500 and returns no response.
\<close>

theorem answer_generation_failure_is_terminal:
  "snd (prepare_answer sv req) = Inr (generated_query, second_prompt, point_value)
   \<Longrightarrow> generate_answer sv (answer_call second_prompt) = None
   \<Longrightarrow> snd (assistant_endpoint sv req) = Inl answer_failure"
  by (auto simp: assistant_endpoint_def Let_def split: prod.splits sum.splits)

theorem answer_generation_failure_is_terminal_witness:
  "snd (prepare_answer (scripted None None False None None None None)
          \<lparr>message = ''Ciao'', max_tokens = 512, temperature = 0.5\<rparr>)
     = Inr (None, no_query_prompt ''Ciao'', [])
   \<and> generate_answer (scripted None None False None None None None)
        (answer_call (no_query_prompt ''Ciao'')) = None
   \<and> snd (assistant_endpoint (scripted None None False None None None None)
            \<lparr>message = ''Ciao'', max_tokens = 512, temperature = 0.5\<rparr>)
     = Inl (HTTPException 500 ''Errore nella generazione della risposta in linguaggio naturale.'')"
  using answer_generation_failure_is_terminal
    [of "scripted None None False None None None None"
        "\<lparr>message = ''Ciao'', max_tokens = 512, temperature = 0.5\<rparr>"
        None "no_query_prompt ''Ciao''" "[]"]
  by (simp add: run_defs answer_failure_def)

lemma upper_cp_fold:
  assumes "fold_case c = fold_case p"
    and "(65 \<le> (of_char p :: nat) \<and> (of_char p :: nat) \<le> 90) \<or> (of_char p :: nat) = 95"
  shows "upper_cp c = [of_char p]"
proof -
  have "upper_cp c = [of_char c] \<and> (of_char c :: nat) = of_char p
      \<or> upper_cp c = [of_char c - 32] \<and> (of_char c :: nat) = of_char p + 32"
    using assms
    by (auto simp: fold_case_def upper_cp_def Let_def simp del: of_char_eq_iff split: if_splits)
  then show ?thesis by (auto simp del: of_char_eq_iff)
qed

lemma upper_Cons: "upper (c # cs) = upper_cp c @ upper cs"
  by (simp add: upper_def)

lemma ci_prefix_upper:
  "ci_prefix ps s
   \<Longrightarrow> \<forall>p\<in>set ps. (65 \<le> (of_char p :: nat) \<and> (of_char p :: nat) \<le> 90) \<or> (of_char p :: nat) = 95
   \<Longrightarrow> prefix (code_points ps) (upper s)"
proof (induction ps s rule: ci_prefix.induct)
  case (1 s)
  then show ?case by (simp add: code_points_def)
next
  case (2 p ps)
  then show ?case by simp
next
  case (3 p ps c cs)
  then have "upper_cp c = [of_char p]" by (intro upper_cp_fold) auto
  with 3 show ?case by (simp add: code_points_def upper_Cons)
qed

lemma sentinel_test:
  "ci_prefix ''NO_SPARQL'' s \<Longrightarrow> prefix (code_points ''NO_SPARQL'') (upper s)"
  by (rule ci_prefix_upper) auto

text \<open>
  Claim C5: when the stripped output of the query-phase generation starts with
  \<open>NO_SPARQL\<close>, in any mix of upper and lower case, the request makes no repair, no
  validation and no store execution, and its response (if the answer phase produces one;
  otherwise the request ends with the answer-phase service error) has no query and an empty
  point.
\<close>

theorem sentinel_means_no_query:
  assumes "ci_prefix ''NO_SPARQL'' (snd (generate_sparql sv (message req)))"
  shows "filter is_query_work (fst (assistant_endpoint sv req)) = []
       \<and> (case snd (assistant_endpoint sv req) of
            Inl e \<Rightarrow> e = answer_failure
          | Inr r \<Rightarrow> query r = None \<and> point r = [])"
  using sentinel_test[OF assms]
  by (auto simp: assistant_endpoint_def prepare_answer_def Let_def resolve_query_def
        execute_query_def answer_prompt_def is_query_work_def generate_sparql_def
        classify_and_translate_def
      split: prod.splits sum.splits option.splits if_splits)

theorem sentinel_means_no_query_witness:
  "ci_prefix ''NO_SPARQL''
     (snd (generate_sparql
        (scripted (Some ''  No_Sparql: fuori tema '') (Some ''Oggi non saprei.'') True
           (Some [Row [(''p'', Some (Literal ''(1, 1, 1)''))]]) (Some ''it'') (Some ''it'') None)
        (message \<lparr>message = ''Che tempo fa?'', max_tokens = 512, temperature = 0.5\<rparr>)))
   \<and> filter is_query_work
       (fst (assistant_endpoint
          (scripted (Some ''  No_Sparql: fuori tema '') (Some ''Oggi non saprei.'') True
             (Some [Row [(''p'', Some (Literal ''(1, 1, 1)''))]]) (Some ''it'') (Some ''it'') None)
          \<lparr>message = ''Che tempo fa?'', max_tokens = 512, temperature = 0.5\<rparr>)) = []
   \<and> snd (assistant_endpoint
          (scripted (Some ''  No_Sparql: fuori tema '') (Some ''Oggi non saprei.'') True
             (Some [Row [(''p'', Some (Literal ''(1, 1, 1)''))]]) (Some ''it'') (Some ''it'') None)
          \<lparr>message = ''Che tempo fa?'', max_tokens = 512, temperature = 0.5\<rparr>)
     = Inr \<lparr>query = None, response = ''Oggi non saprei.'', point = []\<rparr>"
  using sentinel_means_no_query
    [of "scripted (Some ''  No_Sparql: fuori tema '') (Some ''Oggi non saprei.'') True
           (Some [Row [(''p'', Some (Literal ''(1, 1, 1)''))]]) (Some ''it'') (Some ''it'') None"
        "\<lparr>message = ''Che tempo fa?'', max_tokens = 512, temperature = 0.5\<rparr>"]
  by (simp add: run_defs fold_case_def is_query_work_def strip_quotes_def replace_def)

text \<open>
  Claim C8: when the translation call of the language normalization raises, the function
  returns the answer text it was given. (The function has no failing outcome at all: every
  call it makes is inside a \<open>try\<close>.)
\<close>

theorem translation_failure_keeps_answer:
  "Translate m t \<in> set (fst (classify_and_translate sv q a)) \<Longrightarrow> translation sv m t = None
   \<Longrightarrow> snd (classify_and_translate sv q a) = a"
  by (auto simp: classify_and_translate_def Let_def split: if_splits option.splits)

theorem translation_failure_keeps_answer_witness:
  "Translate ''Helsinki-NLP/opus-mt-it-en'' ''Il David si trova al piano terra.''
     \<in> set (fst (classify_and_translate
                 (scripted None None False None (Some ''en'') (Some ''it'') None)
                 ''Where is the David?'' ''Il David si trova al piano terra.''))
   \<and> translation (scripted None None False None (Some ''en'') (Some ''it'') None)
       ''Helsinki-NLP/opus-mt-it-en'' ''Il David si trova al piano terra.'' = None
   \<and> snd (classify_and_translate
            (scripted None None False None (Some ''en'') (Some ''it'') None)
            ''Where is the David?'' ''Il David si trova al piano terra.'')
     = ''Il David si trova al piano terra.''"
  using translation_failure_keeps_answer
    [of "''Helsinki-NLP/opus-mt-it-en''" "''Il David si trova al piano terra.''"
        "scripted None None False None (Some ''en'') (Some ''it'') None"
        "''Where is the David?''" "''Il David si trova al piano terra.''"]
  by (simp add: classify_and_translate_def scripted_def Let_def TRANSLATOR_MODEL_PREFIX_def)

lemma quote_not_in_replace_nonempty:
  "c \<notin> set new \<Longrightarrow> c \<notin> set (replace_nonempty [c] new s)"
  by (induction "[c]" new s rule: replace_nonempty.induct) auto

lemma quote_not_in_strip_quotes: "CHR 0x22 \<notin> set (strip_quotes s)"
  by (simp add: strip_quotes_def replace_def quote_not_in_replace_nonempty)

text \<open>
  The two replacements of the last line of step 4 leave out exactly the escaped and the plain
  double quotes, and nothing else.
\<close>

lemma strip_quotes_without: "strip_quotes s = without_double_quotes s"
  by (induction s rule: without_double_quotes.induct) (simp_all add: strip_quotes_def replace_def)

lemma without_double_quotes_subseq: "subseq (without_double_quotes s) s"
  by (induction s rule: without_double_quotes.induct) (auto intro: subseq_Cons')

text \<open>
  Claim C9: for every request that ends with a response, the answer text of the response is
  the normalized answer with every escaped double quote and every plain double quote left
  out, and it contains no double-quote character.
\<close>

theorem final_answer_is_normalized_answer_without_quotes:
  assumes "snd (assistant_endpoint sv req) = Inr r"
  shows "\<exists>a. normalized_answer sv req = Some a
            \<and> response r = without_double_quotes a
            \<and> CHR 0x22 \<notin> set (response r)"
  using assms
  by (auto simp: assistant_endpoint_def normalized_answer_def Let_def strip_quotes_without[symmetric]
        quote_not_in_strip_quotes
      split: prod.splits sum.splits option.splits)

theorem final_answer_is_normalized_answer_without_quotes_witness:
  "snd (assistant_endpoint
          (scripted None (Some (''  Il '' @ [CHR 0x22] @ ''David'' @ [CHR 0x22] @ '' '')) False None
             (Some ''en'') (Some ''it'')
             (Some (''The '' @ [CHR 0x5C, CHR 0x22] @ ''David'' @ [CHR 0x5C, CHR 0x22] @ '' is ''
                    @ [CHR 0x22] @ ''here'' @ [CHR 0x22])))
          \<lparr>message = ''Where is the David?'', max_tokens = 512, temperature = 0.5\<rparr>)
     = Inr \<lparr>query = None, response = ''The David is here'', point = []\<rparr>
   \<and> normalized_answer
         (scripted None (Some (''  Il '' @ [CHR 0x22] @ ''David'' @ [CHR 0x22] @ '' '')) False None
             (Some ''en'') (Some ''it'')
             (Some (''The '' @ [CHR 0x5C, CHR 0x22] @ ''David'' @ [CHR 0x5C, CHR 0x22] @ '' is ''
                    @ [CHR 0x22] @ ''here'' @ [CHR 0x22])))
         \<lparr>message = ''Where is the David?'', max_tokens = 512, temperature = 0.5\<rparr>
     = Some (''The '' @ [CHR 0x5C, CHR 0x22] @ ''David'' @ [CHR 0x5C, CHR 0x22] @ '' is ''
             @ [CHR 0x22] @ ''here'' @ [CHR 0x22])
   \<and> without_double_quotes
         (''The '' @ [CHR 0x5C, CHR 0x22] @ ''David'' @ [CHR 0x5C, CHR 0x22] @ '' is ''
          @ [CHR 0x22] @ ''here'' @ [CHR 0x22])
     = ''The David is here''
   \<and> CHR 0x22 \<notin> set ''The David is here''"
  using final_answer_is_normalized_answer_without_quotes
    [of "scripted None (Some (''  Il '' @ [CHR 0x22] @ ''David'' @ [CHR 0x22] @ '' '')) False None
             (Some ''en'') (Some ''it'')
             (Some (''The '' @ [CHR 0x5C, CHR 0x22] @ ''David'' @ [CHR 0x5C, CHR 0x22] @ '' is ''
                    @ [CHR 0x22] @ ''here'' @ [CHR 0x22]))"
        "\<lparr>message = ''Where is the David?'', max_tokens = 512, temperature = 0.5\<rparr>"
        "\<lparr>query = None, response = ''The David is here'', point = []\<rparr>"]
  by (simp add: run_defs normalized_answer_def strip_quotes_def replace_def)

section \<open>The endpoint \<open>/query_stanze\<close>: properties\<close>

lemma split_char_nonempty: "split_char sep s \<noteq> []"
  by (induction s) (auto split: list.splits)

lemma split_char_no_sep: "sep \<notin> set s \<Longrightarrow> split_char sep s = [s]"
  by (induction s) auto

lemma split_char_two: "sep \<in> set s \<Longrightarrow> \<exists>p q qs. split_char sep s = p # q # qs"
proof (induction s)
  case Nil
  then show ?case by simp
next
  case (Cons c cs)
  show ?case
  proof (cases "c = sep")
    case True
    then show ?thesis using split_char_nonempty[of sep cs] by (cases "split_char sep cs") auto
  next
    case False
    with Cons obtain p q qs where "split_char sep cs = p # q # qs" by auto
    with False show ?thesis by simp
  qed
qed

lemma last_split_char_append:
  "sep \<notin> set b \<Longrightarrow> last (split_char sep (a @ sep # b)) = b"
proof (induction a)
  case Nil
  then show ?case by (simp add: split_char_no_sep)
next
  case (Cons c a)
  obtain p q qs where pq: "split_char sep (a @ sep # b) = p # q # qs"
    using split_char_two[of sep "a @ sep # b"] by auto
  with Cons show ?case by auto
qed

lemma after_last_append: "sep \<notin> set b \<Longrightarrow> after_last sep (a @ sep # b) = b"
  unfolding after_last_def by (simp, subst takeWhile_append2) auto

lemma last_split_char: "sep \<in> set s \<Longrightarrow> last (split_char sep s) = after_last sep s"
proof -
  assume "sep \<in> set s"
  then obtain a b where "s = a @ sep # b" "sep \<notin> set b"
    using split_list_last by fastforce
  then show ?thesis by (simp add: last_split_char_append after_last_append)
qed

lemma py_in_single: "py_in [c] s \<longleftrightarrow> c \<in> set s"
  by (induction s) auto

lemma local_name_eq:
  "local_name uri = (if CHR ''#'' \<in> set uri then strip (after_last (CHR ''#'') uri) else uri)"
  by (simp add: local_name_def py_in_single last_split_char)

lemma holds_dict_append_new: "holds (dict_append d k e) k e"
  by (induction d k e rule: dict_append.induct) (auto simp: holds_def)

lemma holds_dict_append_old: "holds d k e \<Longrightarrow> holds (dict_append d k' e') k e"
  by (induction d k' e' rule: dict_append.induct) (auto simp: holds_def)

lemma holds_group_rows_old:
  "group_rows d items = Some d' \<Longrightarrow> holds d k e \<Longrightarrow> holds d' k e"
  by (induction d items rule: group_rows.induct)
     (auto simp: holds_dict_append_old split: option.splits)

lemma holds_group_rows_new:
  "group_rows d items = Some d' \<Longrightarrow> item \<in> set items
   \<Longrightarrow> \<exists>k e. row_entry item = Some (k, e) \<and> holds d' k e"
proof (induction d items rule: group_rows.induct)
  case (1 d)
  then show ?case by simp
next
  case (2 d x items)
  then obtain k e where x: "row_entry x = Some (k, e)"
    and rest: "group_rows (dict_append d k e) items = Some d'"
    by (auto split: option.splits)
  show ?case
  proof (cases "item = x")
    case True
    with x rest show ?thesis
      using holds_group_rows_old[OF rest holds_dict_append_new] by auto
  next
    case False
    with 2 x rest show ?thesis by auto
  qed
qed

text \<open>
  Claim C10, as the code has it: for every row of the result of the rooms query, the answer
  has, in the room named by the local name of the row's \<open>stanza\<close>, an entry whose \<open>nome\<close>
  is the part of the work's identifier after its last \<open>#\<close> with the white space at both
  ends removed (the whole identifier, unchanged, when it has no \<open>#\<close>), and whose \<open>punto\<close>
  is the text of the position, or the empty string when \<open>p\<close> is unbound.
\<close>

theorem stanze_entry_of_row:
  assumes "snd (query_stanze_endpoint sv) = Inr stanze"
    and "graph_query sv (correct_sparql_syntax_advanced query_str) = Some items"
    and "Row row \<in> set items"
  shows "\<exists>st opera p.
           map_of row ''stanza'' = Some st \<and> map_of row ''opera'' = Some opera
         \<and> map_of row ''p'' = Some p
         \<and> (\<exists>room\<in>set stanze.
               roomName room = local_name (str_value st)
             \<and> \<lparr>nome = (if CHR ''#'' \<in> set (str_value opera)
                         then strip (after_last (CHR ''#'') (str_value opera))
                         else str_value opera),
                 punto = (case p of None \<Rightarrow> [] | Some t \<Rightarrow> str_term t)\<rparr>
               \<in> set (entries room))"
proof -
  from assms(1,2) obtain d where d: "group_rows [] items = Some d"
    and st: "stanze = map (\<lambda>(room_name, es). \<lparr>roomName = room_name, entries = es\<rparr>) d"
    by (auto simp: query_stanze_endpoint_def Let_def split: if_splits option.splits)
  from holds_group_rows_new[OF d assms(3)] obtain k e
    where e: "row_entry (Row row) = Some (k, e)" and h: "holds d k e" by blast
  from e obtain s opera p where b: "map_of row ''stanza'' = Some s"
      "map_of row ''opera'' = Some opera" "map_of row ''p'' = Some p"
    and k: "k = local_name (str_value s)"
    and ee: "e = \<lparr>nome = local_name (str_value opera),
                  punto = (case p of Some t \<Rightarrow> str_term t | None \<Rightarrow> [])\<rparr>"
    by (auto simp: row_entry_def Let_def split: option.splits)
  from h obtain es where es: "(k, es) \<in> set d" "e \<in> set es" by (auto simp: holds_def)
  then have "\<lparr>roomName = k, entries = es\<rparr> \<in> set stanze" using st by force
  moreover have "(case p of Some t \<Rightarrow> str_term t | None \<Rightarrow> [])
               = (case p of None \<Rightarrow> [] | Some t \<Rightarrow> str_term t)"
    by (simp split: option.splits)
  ultimately show ?thesis
    using b k ee es(2)
    by (auto simp: local_name_eq intro!: bexI[of _ "\<lparr>roomName = k, entries = es\<rparr>"])
qed

lemmas stanze_defs = query_stanze_endpoint_def scripted_def Let_def row_entry_def local_name_def
  str_value_def strip_def is_space_def after_last_def

theorem stanze_entry_of_row_witness:
  "snd (query_stanze_endpoint (scripted None None True (Some museum_rows) None None None))
     = Inr [\<lparr>roomName = ''StanzaItalia'',
              entries = [\<lparr>nome = ''David'', punto = ''(0.586, 0, -0.1)''\<rparr>]\<rparr>,
            \<lparr>roomName = ''StanzaGrecia'',
              entries = [\<lparr>nome = ''urn:Discobolo'', punto = []\<rparr>]\<rparr>]
   \<and> graph_query (scripted None None True (Some museum_rows) None None None)
        (correct_sparql_syntax_advanced query_str) = Some museum_rows
   \<and> Row [(''stanza'', Some (URIRef ''http://m#StanzaGrecia'')),
           (''opera'', Some (URIRef ''urn:Discobolo'')),
           (''p'', None)] \<in> set museum_rows
   \<and> local_name (str_value (Some (URIRef ''http://m#StanzaGrecia''))) = ''StanzaGrecia''
   \<and> (if CHR ''#'' \<in> set (str_value (Some (URIRef ''urn:Discobolo'')))
       then strip (after_last (CHR ''#'') (str_value (Some (URIRef ''urn:Discobolo''))))
       else str_value (Some (URIRef ''urn:Discobolo''))) = ''urn:Discobolo''
   \<and> \<lparr>nome = ''urn:Discobolo'', punto = []\<rparr>
       \<in> set (entries \<lparr>roomName = ''StanzaGrecia'',
                        entries = [\<lparr>nome = ''urn:Discobolo'', punto = []\<rparr>]\<rparr>)"
  using stanze_entry_of_row
    [of "scripted None None True (Some museum_rows) None None None"
        "[\<lparr>roomName = ''StanzaItalia'',
              entries = [\<lparr>nome = ''David'', punto = ''(0.586, 0, -0.1)''\<rparr>]\<rparr>,
            \<lparr>roomName = ''StanzaGrecia'',
              entries = [\<lparr>nome = ''urn:Discobolo'', punto = []\<rparr>]\<rparr>]"
        museum_rows
        "[(''stanza'', Some (URIRef ''http://m#StanzaGrecia'')),
           (''opera'', Some (URIRef ''urn:Discobolo'')),
           (''p'', None)]"]
  by (simp add: stanze_defs museum_rows_def)

text \<open>
  Claim C10 as worded fails where the fragment has white space at an end: the identifier
  of the first row ends with a space, the part after its last \<open>#\<close> keeps that space, and the
  entry's \<open>nome\<close> does not.
\<close>

theorem stanze_fragment_counterexample:
  "snd (query_stanze_endpoint (scripted None None True (Some museum_rows) None None None))
     = Inr [\<lparr>roomName = ''StanzaItalia'',
              entries = [\<lparr>nome = ''David'', punto = ''(0.586, 0, -0.1)''\<rparr>]\<rparr>,
            \<lparr>roomName = ''StanzaGrecia'',
              entries = [\<lparr>nome = ''urn:Discobolo'', punto = []\<rparr>]\<rparr>]
   \<and> after_last (CHR ''#'') ''http://m#David '' = ''David ''"
  by (simp add: stanze_defs museum_rows_def)

section \<open>The query repair: properties\<close>

subsection \<open>Occurrences of a pattern and substitution\<close>

lemma anywhere_iff: "anywhere P s \<longleftrightarrow> (\<exists>a b. s = a @ b \<and> P b)"
proof (induction s)
  case Nil
  then show ?case by simp
next
  case (Cons c cs)
  show ?case
  proof
    assume "anywhere P (c # cs)"
    then consider "P (c # cs)" | "anywhere P cs" by auto
    then show "\<exists>a b. c # cs = a @ b \<and> P b"
    proof cases
      case 1
      then show ?thesis by (intro exI[of _ "[]"] exI[of _ "c # cs"]) auto
    next
      case 2
      with Cons obtain a b where "cs = a @ b" "P b" by auto
      then show ?thesis by (intro exI[of _ "c # a"] exI[of _ b]) auto
    qed
  next
    assume "\<exists>a b. c # cs = a @ b \<and> P b"
    then obtain a b where ab: "c # cs = a @ b" "P b" by auto
    show "anywhere P (c # cs)"
    proof (cases a)
      case Nil
      with ab show ?thesis by auto
    next
      case (Cons a1 a')
      with ab have "cs = a' @ b" by auto
      with ab Cons.IH show ?thesis by auto
    qed
  qed
qed

lemma anywhere_here: "P s \<Longrightarrow> anywhere P s"
  by (cases s) auto

lemma anywhere_append: "anywhere P b \<Longrightarrow> anywhere P (a @ b)"
  by (induction a) auto

lemma anywhere_appendI: "P b \<Longrightarrow> anywhere P (a @ b)"
  by (simp add: anywhere_here anywhere_append)

text \<open>Generic edit lemma: matches that start before the edit, and those that start in it.\<close>

lemma anywhere_edit:
  assumes inv: "\<And>u. u \<noteq> [] \<Longrightarrow> P (u @ e' @ z) \<Longrightarrow> P (u @ e @ z)"
    and base: "anywhere P (e' @ z) \<Longrightarrow> anywhere P (e @ z)"
  shows "anywhere P (x @ e' @ z) \<Longrightarrow> anywhere P (x @ e @ z)"
proof (induction x)
  case Nil
  then show ?case using base by simp
next
  case (Cons a x)
  from Cons.prems have "P ((a # x) @ e' @ z) \<or> anywhere P (x @ e' @ z)" by simp
  then show ?case
  proof
    assume "P ((a # x) @ e' @ z)"
    then have "P ((a # x) @ e @ z)" by (intro inv) auto
    then show ?thesis by simp
  next
    assume "anywhere P (x @ e' @ z)"
    then show ?thesis using Cons.IH by simp
  qed
qed

lemma re_sub_Cons_cases:
  obtains (skip) "re_sub m (c # cs) = c # re_sub m cs"
  | (hit) rep rest where "m (c # cs) = Some (rep, rest)" "length rest \<le> length cs"
      "re_sub m (c # cs) = rep @ re_sub m rest"
proof (cases "m (c # cs)")
  case None
  then show ?thesis using skip by simp
next
  case (Some p)
  obtain rep rest where p: "p = (rep, rest)" by (cases p)
  show ?thesis
  proof (cases "length rest \<le> length cs")
    case True
    with Some p show ?thesis using hit[of rep rest] by simp
  next
    case False
    with Some p show ?thesis using skip by simp
  qed
qed

lemma re_sub_lift:
  assumes step: "\<And>pre s rep rest. m s = Some (rep, rest) \<Longrightarrow> length rest < length s
                  \<Longrightarrow> R (pre @ rep @ rest) \<Longrightarrow> R (pre @ s)"
  shows "R (pre @ re_sub m s) \<Longrightarrow> R (pre @ s)"
proof (induction "length s" arbitrary: s pre rule: less_induct)
  case less
  show ?case
  proof (cases s)
    case Nil
    with less.prems show ?thesis by simp
  next
    case (Cons c cs)
    show ?thesis
    proof (cases rule: re_sub_Cons_cases[of m c cs])
      case skip
      with less.prems Cons have "R ((pre @ [c]) @ re_sub m cs)" by simp
      then have "R ((pre @ [c]) @ cs)" using less.hyps[of cs "pre @ [c]"] Cons by simp
      then show ?thesis using Cons by simp
    next
      case (hit rep rest)
      with less.prems Cons have "R ((pre @ rep) @ re_sub m rest)" by simp
      then have "R ((pre @ rep) @ rest)" using less.hyps[of rest "pre @ rep"] Cons hit by simp
      then show ?thesis using step[of s rep rest pre] hit Cons by simp
    qed
  qed
qed

lemma re_sub_lift_fwd:
  assumes step: "\<And>pre s rep rest. m s = Some (rep, rest) \<Longrightarrow> length rest < length s
                  \<Longrightarrow> R (pre @ s) \<Longrightarrow> R (pre @ rep @ rest)"
  shows "R (pre @ s) \<Longrightarrow> R (pre @ re_sub m s)"
proof (induction "length s" arbitrary: s pre rule: less_induct)
  case less
  show ?case
  proof (cases s)
    case Nil
    with less.prems show ?thesis by simp
  next
    case (Cons c cs)
    show ?thesis
    proof (cases rule: re_sub_Cons_cases[of m c cs])
      case skip
      from less.prems Cons have "R ((pre @ [c]) @ cs)" by simp
      then have "R ((pre @ [c]) @ re_sub m cs)" using less.hyps[of cs "pre @ [c]"] Cons by simp
      then show ?thesis using Cons skip by simp
    next
      case (hit rep rest)
      have "R ((pre @ rep) @ rest)" using step[of s rep rest pre] hit Cons less.prems by simp
      then have "R ((pre @ rep) @ re_sub m rest)"
        using less.hyps[of rest "pre @ rep"] Cons hit by simp
      then show ?thesis using Cons hit by simp
    qed
  qed
qed

lemma re_sub_id: "\<not> anywhere (matches m) s \<Longrightarrow> re_sub m s = s"
  by (induction s) (auto simp: matches_def split: option.splits)

subsection \<open>Keywords and patterns without white space\<close>

lemma takeWhile_stop: "\<not> P k \<Longrightarrow> takeWhile P (u @ k # z) = takeWhile P u"
  by (induction u) auto

lemma dropWhile_stop: "\<not> P k \<Longrightarrow> dropWhile P (u @ k # z) = dropWhile P u @ k # z"
  by (induction u) auto

lemma ci_prefix_length: "ci_prefix p s \<Longrightarrow> length p \<le> length s"
  by (induction p s rule: ci_prefix.induct) auto

lemma ci_prefix_mono: "ci_prefix p a \<Longrightarrow> ci_prefix p (a @ b)"
  by (induction p a rule: ci_prefix.induct) auto

lemma ci_prefix_fit:
  "ci_prefix p (a @ k # z) \<Longrightarrow> \<forall>q\<in>set p. fold_case k \<noteq> fold_case q \<Longrightarrow> ci_prefix p a"
  by (induction p a rule: ci_prefix.induct) auto

lemma ci_prefix_take: "ci_prefix p s \<Longrightarrow> ci_prefix p (take (length p) s)"
  by (induction p s rule: ci_prefix.induct) auto

lemma space_fold_SELECT: "is_space k \<Longrightarrow> \<forall>q\<in>set ''SELECT''. fold_case k \<noteq> fold_case q"
  by (auto simp: is_space_def fold_case_def Let_def)

lemma space_fold_WHERE: "is_space k \<Longrightarrow> \<forall>q\<in>set ''WHERE''. fold_case k \<noteq> fold_case q"
  by (auto simp: is_space_def fold_case_def Let_def)

lemma space_not_mark: "is_space k \<Longrightarrow> k \<noteq> CHR ''?'' \<and> k \<noteq> CHR ''*'' \<and> k \<noteq> CHR ''{'' \<and> k \<noteq> CHR ''}'' \<and> k \<noteq> CHR ''.''"
  by (auto simp: is_space_def)

lemma matches_select:
  "matches m_select s \<longleftrightarrow>
     ci_prefix ''SELECT'' s \<and> (\<exists>c r. drop 6 s = c # r \<and> (c = CHR ''?'' \<or> c = CHR ''*''))"
  by (auto simp: matches_def m_select_def split: list.splits)

lemma matches_where:
  "matches m_where s \<longleftrightarrow> ci_prefix ''WHERE'' s \<and> (\<exists>r. drop 5 s = CHR ''{'' # r)"
  by (auto simp: matches_def m_where_def split: list.splits)

lemma drop_fit:
  "n \<le> length u \<Longrightarrow> drop n (u @ k # z) = c # r \<Longrightarrow> c \<noteq> k \<Longrightarrow> \<exists>r'. drop n u = c # r'"
  by (cases "drop n u") auto

lemma solid_select: "solid (matches m_select)"
  unfolding solid_def
proof (intro conjI allI impI)
  fix u k z
  assume k: "is_space k" and m: "matches m_select (u @ k # z)"
  from m have ci: "ci_prefix ''SELECT'' u"
    using ci_prefix_fit[OF _ space_fold_SELECT[OF k]] by (auto simp: matches_select)
  then have len: "6 \<le> length u" using ci_prefix_length by fastforce
  from m obtain c r where d: "drop 6 (u @ k # z) = c # r" "c = CHR ''?'' \<or> c = CHR ''*''"
    by (auto simp: matches_select)
  then have "c \<noteq> k" using space_not_mark[OF k] by auto
  from drop_fit[OF len d(1) this] d(2) ci show "matches m_select u"
    by (auto simp: matches_select)
next
  fix u z
  assume "matches m_select u"
  then show "matches m_select (u @ z)"
    by (auto simp: matches_select ci_prefix_mono dest: ci_prefix_length)
next
  fix u
  assume "matches m_select u"
  then show "6 \<le> length u" using ci_prefix_length by (fastforce simp: matches_select)
next
  fix z
  show "\<not> matches m_select (CHR ''.'' # z)"
    by (simp add: matches_select fold_case_def)
qed

lemma solid_where: "solid (matches m_where)"
  unfolding solid_def
proof (intro conjI allI impI)
  fix u k z
  assume k: "is_space k" and m: "matches m_where (u @ k # z)"
  from m have ci: "ci_prefix ''WHERE'' u"
    using ci_prefix_fit[OF _ space_fold_WHERE[OF k]] by (auto simp: matches_where)
  then have len: "5 \<le> length u" using ci_prefix_length by fastforce
  from m obtain r where d: "drop 5 (u @ k # z) = CHR ''{'' # r"
    by (auto simp: matches_where)
  have "CHR ''{'' \<noteq> k" using space_not_mark[OF k] by auto
  from drop_fit[OF len d this] ci show "matches m_where u"
    by (auto simp: matches_where)
next
  fix u z
  assume "matches m_where u"
  then show "matches m_where (u @ z)"
    by (auto simp: matches_where ci_prefix_mono dest: ci_prefix_length)
next
  fix u
  assume "matches m_where u"
  then have "drop 5 u \<noteq> []" by (auto simp: matches_where)
  then show "6 \<le> length u" by simp
next
  fix z
  show "\<not> matches m_where (CHR ''.'' # z)"
    by (simp add: matches_where fold_case_def)
qed

subsection \<open>The shape of each match and of its replacement\<close>

lemma m_select_shape:
  assumes "m_select s = Some (rep, rest)"
  obtains K c where "s = K @ c # rest" "rep = K @ [CHR '' '', c]" "length K = 6"
    "c = CHR ''?'' \<or> c = CHR ''*''"
proof -
  from assms have ci: "ci_prefix ''SELECT'' s"
    and d: "\<exists>c. drop 6 s = c # rest \<and> rep = take 6 s @ [CHR '' '', c] \<and> (c = CHR ''?'' \<or> c = CHR ''*'')"
    by (auto simp: m_select_def split: if_splits list.splits)
  then obtain c where c: "drop 6 s = c # rest" "rep = take 6 s @ [CHR '' '', c]"
    "c = CHR ''?'' \<or> c = CHR ''*''" by auto
  have "s = take 6 s @ c # rest" using c(1) append_take_drop_id[of 6 s] by simp
  moreover have "length (take 6 s) = 6" using ci_prefix_length[OF ci] by simp
  ultimately show ?thesis using that c by blast
qed

lemma m_where_shape:
  assumes "m_where s = Some (rep, rest)"
  obtains K where "s = K @ CHR ''{'' # rest" "rep = K @ [CHR '' '', CHR ''{'']" "length K = 5"
proof -
  from assms have ci: "ci_prefix ''WHERE'' s"
    and d: "drop 5 s = CHR ''{'' # rest" "rep = take 5 s @ [CHR '' '', CHR ''{'']"
    by (auto simp: m_where_def split: if_splits list.splits)
  have "s = take 5 s @ CHR ''{'' # rest" using d(1) append_take_drop_id[of 5 s] by simp
  moreover have "length (take 5 s) = 5" using ci_prefix_length[OF ci] by simp
  ultimately show ?thesis using that d by blast
qed

lemma m_glue_shape:
  assumes "m_glue s = Some (rep, rest)"
  obtains w1 w2 where "s = (''progettoMuseo:'' @ w1) @ CHR ''?'' # w2 @ rest"
    "rep = (''progettoMuseo:'' @ w1) @ CHR '' '' # CHR ''?'' # w2"
    "w1 \<noteq> []" "w2 \<noteq> []" "\<forall>c\<in>set w1. is_word c" "\<forall>c\<in>set w2. is_word c"
proof -
  define r where "r = drop 14 s"
  from assms have p: "prefix ''progettoMuseo:'' s"
    by (auto simp: m_glue_def split: if_splits)
  then have s: "s = ''progettoMuseo:'' @ r"
    unfolding r_def by (auto simp: prefix_def)
  from assms p obtain r2 where r2: "dropWhile is_word r = CHR ''?'' # r2"
    and w1: "takeWhile is_word r \<noteq> []" and w2: "takeWhile is_word r2 \<noteq> []"
    and rep: "rep = ''progettoMuseo:'' @ takeWhile is_word r @ '' ?'' @ takeWhile is_word r2"
    and rest: "rest = dropWhile is_word r2"
    unfolding m_glue_def r_def[symmetric] Let_def
    by (auto split: if_splits list.splits)
  have "r = takeWhile is_word r @ CHR ''?'' # r2"
    using takeWhile_dropWhile_id[of is_word r] r2 by simp
  moreover have "r2 = takeWhile is_word r2 @ rest"
    using rest by simp
  ultimately have "s = (''progettoMuseo:'' @ takeWhile is_word r) @ CHR ''?'' # takeWhile is_word r2 @ rest"
    using s by simp
  then show ?thesis
    using that[of "takeWhile is_word r" "takeWhile is_word r2"] rep w1 w2
    by (auto dest: set_takeWhileD)
qed

lemma m_spaces_shape:
  assumes "m_spaces s = Some (rep, rest)"
  obtains c sp where "s = c # sp @ rest" "rep = [CHR '' '']" "is_space c"
    "\<forall>x\<in>set sp. is_space x" "rest = [] \<or> \<not> is_space (hd rest)"
proof -
  from assms obtain c r where s: "s = c # r" and c: "is_space c"
    and rep: "rep = [CHR '' '']" and rest: "rest = dropWhile is_space r"
    by (auto simp: m_spaces_def split: list.splits if_splits)
  have "r = takeWhile is_space r @ rest" using rest by simp
  moreover have "rest = [] \<or> \<not> is_space (hd rest)"
    unfolding rest using hd_dropWhile[of is_space r] by auto
  ultimately show ?thesis
    using that[of c "takeWhile is_space r"] s c rep by (auto dest: set_takeWhileD)
qed

lemma m_dot_shape:
  assumes "m_dot s = Some (rep, rest)"
  obtains w sp where "s = (CHR ''?'' # w) @ (sp @ [CHR ''}'']) @ rest"
    "rep = (CHR ''?'' # w) @ '' . }''"
    "w \<noteq> []" "\<forall>c\<in>set w. is_word c" "\<forall>c\<in>set sp. is_space c"
proof -
  from assms obtain r where s: "s = CHR ''?'' # r"
    by (auto simp: m_dot_def split: list.splits if_splits)
  define r1 where "r1 = dropWhile is_word r"
  from assms s have d: "dropWhile is_space r1 = CHR ''}'' # rest"
    and w: "takeWhile is_word r \<noteq> []"
    and rep: "rep = CHR ''?'' # takeWhile is_word r @ '' . }''"
    unfolding m_dot_def r1_def Let_def by (auto split: list.splits if_splits)
  have "r = takeWhile is_word r @ r1" unfolding r1_def by simp
  moreover have "r1 = takeWhile is_space r1 @ CHR ''}'' # rest"
    using takeWhile_dropWhile_id[of is_space r1] d by simp
  ultimately have "s = (CHR ''?'' # takeWhile is_word r) @ (takeWhile is_space r1 @ [CHR ''}'']) @ rest"
    using s by simp
  then show ?thesis
    using that[of "takeWhile is_word r" "takeWhile is_space r1"] rep w
    by (auto dest: set_takeWhileD)
qed

lemma m_add_where_shape:
  assumes "m_add_where s = Some (rep, rest)"
  obtains K t where "s = (K @ t) @ CHR ''{'' # rest" "rep = (K @ t) @ '' WHERE {''"
    "length K = 6" "ci_prefix ''SELECT'' K" "CHR ''{'' \<notin> set t" "2 \<le> length t" "is_space (hd t)"
proof -
  define r where "r = drop 6 s"
  define t where "t = takeWhile (\<lambda>c. c \<noteq> CHR ''{'') r"
  from assms have ci: "ci_prefix ''SELECT'' s"
    by (auto simp: m_add_where_def split: if_splits)
  from assms ci obtain b where d: "dropWhile (\<lambda>c. c \<noteq> CHR ''{'') r = b # rest"
    and t2: "2 \<le> length t" "is_space (hd t)"
    and rep: "rep = take 6 s @ t @ '' WHERE {''"
    unfolding m_add_where_def r_def[symmetric] Let_def t_def[symmetric]
    by (auto split: if_splits list.splits)
  have "b = CHR ''{''" using hd_dropWhile[of "\<lambda>c. c \<noteq> CHR ''{''" r] d by auto
  then have "r = t @ CHR ''{'' # rest"
    using takeWhile_dropWhile_id[of "\<lambda>c. c \<noteq> CHR ''{''" r] d t_def by simp
  then have "s = (take 6 s @ t) @ CHR ''{'' # rest"
    using append_take_drop_id[of 6 s] r_def by simp
  moreover have "length (take 6 s) = 6" using ci_prefix_length[OF ci] by simp
  moreover have "CHR ''{'' \<notin> set t" unfolding t_def by (auto dest: set_takeWhileD)
  moreover have "ci_prefix ''SELECT'' (take 6 s)"
  proof -
    have "length ''SELECT'' = 6" by simp
    with ci_prefix_take[OF ci] show ?thesis by metis
  qed
  ultimately show ?thesis
    using that[of "take 6 s" t] rep t2 by auto
qed

lemma shrinks_select: "shrinks m_select"
  unfolding shrinks_def by (auto elim!: m_select_shape)

lemma shrinks_where: "shrinks m_where"
  unfolding shrinks_def by (auto elim!: m_where_shape)

lemma shrinks_glue: "shrinks m_glue"
  unfolding shrinks_def by (auto elim!: m_glue_shape)

lemma shrinks_spaces: "shrinks m_spaces"
  unfolding shrinks_def by (auto elim!: m_spaces_shape)

lemma shrinks_dot: "shrinks m_dot"
  unfolding shrinks_def by (auto elim!: m_dot_shape)

lemma shrinks_add_where: "shrinks m_add_where"
  unfolding shrinks_def by (auto elim!: m_add_where_shape)

subsection \<open>No later step brings back a match of an earlier pattern\<close>

lemma re_sub_shrinks_cases:
  assumes "shrinks m"
  obtains (skip) "m (c # cs) = None" "re_sub m (c # cs) = c # re_sub m cs"
  | (hit) rep rest where "m (c # cs) = Some (rep, rest)" "length rest \<le> length cs"
      "re_sub m (c # cs) = rep @ re_sub m rest"
proof (cases "m (c # cs)")
  case None
  then show ?thesis using skip by simp
next
  case (Some p)
  obtain rep rest where p: "p = (rep, rest)" by (cases p)
  with Some assms have "length rest < length (c # cs)" unfolding shrinks_def by blast
  then have "length rest \<le> length cs" by simp
  with Some p show ?thesis using hit[of rep rest] by simp
qed

lemma re_sub_lift_pos:
  assumes step: "\<And>pre s rep rest. pre \<noteq> [] \<Longrightarrow> m s = Some (rep, rest)
                  \<Longrightarrow> R (pre @ rep @ rest) \<Longrightarrow> R (pre @ s)"
    and "pre \<noteq> []" and "R (pre @ re_sub m s)"
  shows "R (pre @ s)"
proof -
  have "(\<lambda>t. R (pre @ t)) ([] @ s)"
  proof (rule re_sub_lift[where R = "\<lambda>t. R (pre @ t)" and m = m and pre = "[]"])
    fix pre' s' rep rest
    assume "m s' = Some (rep, rest)" "R (pre @ pre' @ rep @ rest)"
    then show "R (pre @ pre' @ s')" using step[of "pre @ pre'" s' rep rest] assms(2) by simp
  next
    show "R (pre @ [] @ re_sub m s)" using assms(3) by simp
  qed
  then show ?thesis by simp
qed

lemma anywhere_append_cases:
  "anywhere P (r @ t) \<Longrightarrow> (\<exists>v u. r = v @ u \<and> u \<noteq> [] \<and> P (u @ t)) \<or> anywhere P t"
proof (induction r)
  case Nil
  then show ?case by simp
next
  case (Cons a r)
  from Cons.prems have "P ((a # r) @ t) \<or> anywhere P (r @ t)" by simp
  then show ?case
  proof
    assume "P ((a # r) @ t)"
    then show ?thesis by (intro disjI1 exI[of _ "[]"] exI[of _ "a # r"]) simp
  next
    assume "anywhere P (r @ t)"
    with Cons.IH consider v u where "r = v @ u" "u \<noteq> []" "P (u @ t)" | "anywhere P t" by blast
    then show ?thesis
    proof cases
      case 1
      then show ?thesis by (intro disjI1 exI[of _ "a # v"] exI[of _ u]) simp
    next
      case 2
      then show ?thesis by simp
    qed
  qed
qed

lemma re_sub_clears:
  assumes sh: "shrinks m"
    and inside: "\<And>s rep rest v u z. m s = Some (rep, rest) \<Longrightarrow> rep = v @ u \<Longrightarrow> u \<noteq> []
                  \<Longrightarrow> \<not> matches m (u @ z)"
    and inv: "\<And>s rep rest u. u \<noteq> [] \<Longrightarrow> m s = Some (rep, rest)
                  \<Longrightarrow> matches m (u @ rep @ rest) \<Longrightarrow> matches m (u @ s)"
    and ne: "\<not> matches m []"
  shows "\<not> anywhere (matches m) (re_sub m s)"
proof (induction "length s" arbitrary: s rule: less_induct)
  case less
  show ?case
  proof (cases s)
    case Nil
    then show ?thesis using ne by simp
  next
    case (Cons c cs)
    consider (skip) "m (c # cs) = None" "re_sub m (c # cs) = c # re_sub m cs"
      | (hit) rep rest where "m (c # cs) = Some (rep, rest)" "length rest \<le> length cs"
          "re_sub m (c # cs) = rep @ re_sub m rest"
      by (rule re_sub_shrinks_cases[OF sh, of c cs]) auto
    then show ?thesis
    proof cases
      case skip
      have "\<not> matches m ([c] @ re_sub m cs)"
      proof
        assume "matches m ([c] @ re_sub m cs)"
        then have "matches m ([c] @ cs)"
          by (rule re_sub_lift_pos[where R = "matches m", rotated 2]) (use inv in auto)
        then show False using skip by (simp add: matches_def)
      qed
      moreover have "\<not> anywhere (matches m) (re_sub m cs)" using less[of cs] Cons by simp
      ultimately show ?thesis using Cons skip by simp
    next
      case (hit rep rest)
      have "\<not> anywhere (matches m) (re_sub m rest)" using less[of rest] Cons hit by simp
      moreover have "\<not> (\<exists>v u. rep = v @ u \<and> u \<noteq> [] \<and> matches m (u @ re_sub m rest))"
        using inside[OF hit(1)] by blast
      ultimately show ?thesis
        using anywhere_append_cases[of "matches m" rep "re_sub m rest"] Cons hit by auto
    qed
  qed
qed

lemma solid_fit: "solid P \<Longrightarrow> is_space k \<Longrightarrow> P (u @ k # z) \<Longrightarrow> P u"
  unfolding solid_def by blast

lemma solid_mono: "solid P \<Longrightarrow> P u \<Longrightarrow> P (u @ z)"
  unfolding solid_def by blast

lemma solid_len: "solid P \<Longrightarrow> P u \<Longrightarrow> 6 \<le> length u"
  unfolding solid_def by blast

lemma solid_dot: "solid P \<Longrightarrow> \<not> P (CHR ''.'' # z)"
  unfolding solid_def by blast

lemma solid_not_space: "solid P \<Longrightarrow> is_space k \<Longrightarrow> \<not> P (k # z)"
proof
  assume s: "solid P" and k: "is_space k" and p: "P (k # z)"
  have "P []" using solid_fit[OF s k, of "[]" z] p by simp
  then show False using solid_len[OF s, of "[]"] by simp
qed

lemma solid_edit:
  assumes s: "solid P" and k: "is_space k"
    and base: "anywhere P (e'' @ z) \<Longrightarrow> anywhere P (e @ z)"
  shows "anywhere P (x @ (k # e'') @ z) \<Longrightarrow> anywhere P (x @ e @ z)"
proof (rule anywhere_edit)
  fix u :: string
  assume "u \<noteq> []" "P (u @ (k # e'') @ z)"
  then have "P u" using solid_fit[OF s k, of u "e'' @ z"] by simp
  then show "P (u @ e @ z)" by (rule solid_mono[OF s])
next
  assume "anywhere P ((k # e'') @ z)"
  then have "anywhere P (e'' @ z)" using solid_not_space[OF s k] by simp
  then show "anywhere P (e @ z)" by (rule base)
qed

lemma solid_back_select:
  assumes "solid P" shows "anywhere P (pre @ re_sub m_select s) \<Longrightarrow> anywhere P (pre @ s)"
proof (rule re_sub_lift[where R = "anywhere P"])
  fix pre s rep rest
  assume m: "m_select s = Some (rep, rest)" and a: "anywhere P (pre @ rep @ rest)"
  from m obtain K c where "s = K @ c # rest" "rep = K @ [CHR '' '', c]" by (rule m_select_shape)
  then show "anywhere P (pre @ s)"
    using solid_edit[OF assms, of "CHR '' ''" "[c]" rest "[c]" "pre @ K"] a
    by (simp add: is_space_def)
qed

lemma solid_back_where:
  assumes "solid P" shows "anywhere P (pre @ re_sub m_where s) \<Longrightarrow> anywhere P (pre @ s)"
proof (rule re_sub_lift[where R = "anywhere P"])
  fix pre s rep rest
  assume m: "m_where s = Some (rep, rest)" and a: "anywhere P (pre @ rep @ rest)"
  from m obtain K where "s = K @ CHR ''{'' # rest" "rep = K @ [CHR '' '', CHR ''{'']"
    by (rule m_where_shape)
  then show "anywhere P (pre @ s)"
    using solid_edit[OF assms, of "CHR '' ''" "[CHR ''{'']" rest "[CHR ''{'']" "pre @ K"] a
    by (simp add: is_space_def)
qed

lemma solid_back_glue:
  assumes "solid P" shows "anywhere P (pre @ re_sub m_glue s) \<Longrightarrow> anywhere P (pre @ s)"
proof (rule re_sub_lift[where R = "anywhere P"])
  fix pre s rep rest
  assume m: "m_glue s = Some (rep, rest)" and a: "anywhere P (pre @ rep @ rest)"
  from m obtain w1 w2 where "s = (''progettoMuseo:'' @ w1) @ CHR ''?'' # w2 @ rest"
    "rep = (''progettoMuseo:'' @ w1) @ CHR '' '' # CHR ''?'' # w2"
    by (rule m_glue_shape)
  then show "anywhere P (pre @ s)"
    using solid_edit[OF assms, of "CHR '' ''" "CHR ''?'' # w2" rest "CHR ''?'' # w2"
        "pre @ ''progettoMuseo:'' @ w1"] a
    by (simp add: is_space_def)
qed

lemma solid_back_spaces:
  assumes "solid P" shows "anywhere P (pre @ re_sub m_spaces s) \<Longrightarrow> anywhere P (pre @ s)"
proof (rule re_sub_lift[where R = "anywhere P"])
  fix pre s rep rest
  assume m: "m_spaces s = Some (rep, rest)" and a: "anywhere P (pre @ rep @ rest)"
  from m obtain c sp where "s = c # sp @ rest" "rep = [CHR '' '']" by (rule m_spaces_shape)
  then show "anywhere P (pre @ s)"
    using solid_edit[OF assms, of "CHR '' ''" "[]" rest "c # sp" pre] a
    by (simp add: is_space_def anywhere_append)
qed

lemma solid_back_dot:
  assumes "solid P" shows "anywhere P (pre @ re_sub m_dot s) \<Longrightarrow> anywhere P (pre @ s)"
proof (rule re_sub_lift[where R = "anywhere P"])
  fix pre s rep rest
  assume m: "m_dot s = Some (rep, rest)" and a: "anywhere P (pre @ rep @ rest)"
  from m obtain w sp where sh: "s = (CHR ''?'' # w) @ (sp @ [CHR ''}'']) @ rest"
    "rep = (CHR ''?'' # w) @ '' . }''" by (rule m_dot_shape)
  have base: "anywhere P (''. }'' @ rest) \<Longrightarrow> anywhere P ((sp @ [CHR ''}'']) @ rest)"
  proof -
    assume "anywhere P (''. }'' @ rest)"
    moreover have "\<not> P (CHR ''.'' # CHR '' '' # CHR ''}'' # rest)"
      by (rule solid_dot[OF assms])
    moreover have "\<not> P (CHR '' '' # CHR ''}'' # rest)"
      using solid_not_space[OF assms] by (simp add: is_space_def)
    ultimately have "anywhere P (CHR ''}'' # rest)" by simp
    then show ?thesis using anywhere_append[of P "CHR ''}'' # rest" sp] by simp
  qed
  show "anywhere P (pre @ s)"
    using solid_edit[OF assms, of "CHR '' ''" "''. }''" rest "sp @ [CHR ''}'']"
        "pre @ CHR ''?'' # w", OF _ base] a sh
    by (simp add: is_space_def)
qed

lemma solid_short: "solid P \<Longrightarrow> length u < 6 \<Longrightarrow> is_space k \<Longrightarrow> \<not> P (u @ k # z)"
proof
  assume s: "solid P" and l: "length u < 6" and k: "is_space k" and p: "P (u @ k # z)"
  from solid_len[OF s solid_fit[OF s k p]] l show False by simp
qed

lemma solid_back_add_where:
  assumes "solid P"
  shows "anywhere P (pre @ re_sub m_add_where s) \<Longrightarrow> anywhere P (pre @ s)"
proof (rule re_sub_lift[where R = "anywhere P"])
  fix pre s rep rest
  assume m: "m_add_where s = Some (rep, rest)" and a: "anywhere P (pre @ rep @ rest)"
  from m obtain K t where sh: "s = (K @ t) @ CHR ''{'' # rest" "rep = (K @ t) @ '' WHERE {''"
    by (rule m_add_where_shape)
  have sp: "is_space (CHR '' '')" by (simp add: is_space_def)
  have base: "anywhere P (''WHERE {'' @ rest) \<Longrightarrow> anywhere P ([CHR ''{''] @ rest)"
    using solid_short[OF assms _ sp, of "''WHERE''" "CHR ''{'' # rest"]
      solid_short[OF assms _ sp, of "''HERE''" "CHR ''{'' # rest"]
      solid_short[OF assms _ sp, of "''ERE''" "CHR ''{'' # rest"]
      solid_short[OF assms _ sp, of "''RE''" "CHR ''{'' # rest"]
      solid_short[OF assms _ sp, of "''E''" "CHR ''{'' # rest"]
      solid_not_space[OF assms sp, of "CHR ''{'' # rest"]
    by simp
  show "anywhere P (pre @ s)"
    using solid_edit[OF assms sp, of "''WHERE {''" rest "[CHR ''{'']" "pre @ K @ t", OF base] a sh
    by simp
qed

lemma strip_decomp:
  "\<exists>l r. s = l @ strip s @ r \<and> (\<forall>c\<in>set l. is_space c) \<and> (\<forall>c\<in>set r. is_space c)"
proof -
  define d where "d = dropWhile is_space s"
  have 1: "s = takeWhile is_space s @ d" unfolding d_def by simp
  have "rev (dropWhile is_space (rev d)) @ rev (takeWhile is_space (rev d))
      = rev (takeWhile is_space (rev d) @ dropWhile is_space (rev d))" by (simp only: rev_append)
  also have "\<dots> = d" by (simp only: takeWhile_dropWhile_id rev_rev_ident)
  finally have 2: "d = strip s @ rev (takeWhile is_space (rev d))"
    unfolding strip_def d_def by simp
  show ?thesis
    apply (rule exI[of _ "takeWhile is_space s"])
    apply (rule exI[of _ "rev (takeWhile is_space (rev d))"])
    using 1 2 by (auto dest: set_takeWhileD)
qed

lemma anywhere_mono_right:
  assumes "\<And>u z. P u \<Longrightarrow> P (u @ z)" and "anywhere P a"
  shows "anywhere P (a @ r)"
proof -
  from assms(2) obtain x b where "a = x @ b" "P b" unfolding anywhere_iff by blast
  then have "a @ r = x @ (b @ r)" "P (b @ r)" using assms(1) by auto
  then show ?thesis unfolding anywhere_iff by blast
qed

lemma solid_back_strip: "solid P \<Longrightarrow> anywhere P (strip s) \<Longrightarrow> anywhere P s"
proof -
  assume s: "solid P" and a: "anywhere P (strip s)"
  obtain l r where lr: "s = l @ strip s @ r" using strip_decomp by blast
  from a have "anywhere P (strip s @ r)"
    by (rule anywhere_mono_right[rotated]) (rule solid_mono[OF s])
  then have "anywhere P (l @ strip s @ r)" by (rule anywhere_append)
  with lr show ?thesis by simp
qed

lemma solid_back_collapse: "solid P \<Longrightarrow> anywhere P (collapse_spaces s) \<Longrightarrow> anywhere P s"
proof -
  assume s: "solid P" and a: "anywhere P (collapse_spaces s)"
  then have "anywhere P ([] @ re_sub m_spaces s)"
    unfolding collapse_spaces_def using solid_back_strip[OF s] by simp
  then have "anywhere P ([] @ s)" by (rule solid_back_spaces[OF s])
  then show ?thesis by simp
qed

lemma solid_back_add_where': "solid P \<Longrightarrow> anywhere P (add_where s) \<Longrightarrow> anywhere P s"
proof -
  assume s: "solid P" and a: "anywhere P (add_where s)"
  show ?thesis
  proof (cases "py_in (code_points ''WHERE'') (upper s)")
    case True
    with a show ?thesis by (simp add: add_where_def)
  next
    case False
    with a have "anywhere P ([] @ re_sub m_add_where s)" by (simp add: add_where_def)
    then have "anywhere P ([] @ s)" by (rule solid_back_add_where[OF s])
    then show ?thesis by simp
  qed
qed

lemma space_not_word: "is_space k \<Longrightarrow> \<not> is_word k"
  by (auto simp: is_space_def is_word_def Let_def)

lemma suffix_of_two: "w @ u = [a, b] \<Longrightarrow> u \<noteq> [] \<Longrightarrow> u = [a, b] \<or> u = [b]"
  by (cases w; cases "tl w") (auto simp: append_eq_Cons_conv)

lemma select_len7: "matches m_select u \<Longrightarrow> 7 \<le> length u"
proof -
  assume "matches m_select u"
  then have "drop 6 u \<noteq> []" by (auto simp: matches_select)
  then show ?thesis by simp
qed

lemma solid_inv:
  assumes s: "solid P" and k: "is_space k"
  shows "P (u @ (a @ k # e'') @ z) \<Longrightarrow> P (u @ (a @ e) @ z)"
proof -
  assume "P (u @ (a @ k # e'') @ z)"
  then have "P ((u @ a) @ k # (e'' @ z))" by simp
  then have "P (u @ a)" by (rule solid_fit[OF s k])
  then have "P ((u @ a) @ (e @ z))" by (rule solid_mono[OF s])
  then show ?thesis by simp
qed

lemma clears_select: "\<not> anywhere (matches m_select) (re_sub m_select s)"
proof (rule re_sub_clears[OF shrinks_select])
  fix s rep rest v u z
  assume m: "m_select s = Some (rep, rest)" and r: "rep = v @ u" and u: "u \<noteq> []"
  from m obtain K c where sh: "rep = K @ [CHR '' '', c]" "length K = 6"
    "c = CHR ''?'' \<or> c = CHR ''*''" by (rule m_select_shape)
  have sp: "is_space (CHR '' '')" by (simp add: is_space_def)
  from r sh(1) consider w where "v = K @ w" "w @ u = [CHR '' '', c]"
    | w where "v @ w = K" "u = w @ [CHR '' '', c]"
    by (auto simp: append_eq_append_conv2)
  then show "\<not> matches m_select (u @ z)"
  proof cases
    case 1
    then have "u = [CHR '' '', c] \<or> u = [c]" using u by (intro suffix_of_two[of w]) auto
    then show ?thesis
    proof
      assume "u = [CHR '' '', c]"
      then show ?thesis using solid_not_space[OF solid_select sp] by simp
    next
      assume "u = [c]"
      then show ?thesis using sh(3) by (auto simp: matches_select fold_case_def)
    qed
  next
    case 2
    then have l: "length w \<le> 6" using sh(2) by (metis length_append le_add2)
    show ?thesis
    proof
      assume "matches m_select (u @ z)"
      then have "matches m_select (w @ CHR '' '' # (c # z))" using 2 by simp
      then have "matches m_select w" by (rule solid_fit[OF solid_select sp])
      then show False using select_len7[of w] l by simp
    qed
  qed
next
  fix s rep rest u
  assume m: "m_select s = Some (rep, rest)" and a: "matches m_select (u @ rep @ rest)"
  from m obtain K c where sh: "s = K @ c # rest" "rep = K @ [CHR '' '', c]"
    by (rule m_select_shape)
  have "matches m_select (u @ (K @ [c]) @ rest)"
    by (rule solid_inv[OF solid_select, of "CHR '' ''" u K "[c]" rest])
       (use a sh in \<open>simp_all add: is_space_def\<close>)
  then show "matches m_select (u @ s)" using sh by simp
next
  show "\<not> matches m_select []" by (simp add: matches_select)
qed

lemma clears_where: "\<not> anywhere (matches m_where) (re_sub m_where s)"
proof (rule re_sub_clears[OF shrinks_where])
  fix s rep rest v u z
  assume m: "m_where s = Some (rep, rest)" and r: "rep = v @ u" and u: "u \<noteq> []"
  from m obtain K where sh: "rep = K @ [CHR '' '', CHR ''{'']" "length K = 5"
    by (rule m_where_shape)
  have sp: "is_space (CHR '' '')" by (simp add: is_space_def)
  from r sh(1) consider w where "v = K @ w" "w @ u = [CHR '' '', CHR ''{'']"
    | w where "v @ w = K" "u = w @ [CHR '' '', CHR ''{'']"
    by (auto simp: append_eq_append_conv2)
  then show "\<not> matches m_where (u @ z)"
  proof cases
    case 1
    then have "u = [CHR '' '', CHR ''{''] \<or> u = [CHR ''{'']" using u
      by (intro suffix_of_two[of w]) auto
    then show ?thesis
    proof
      assume "u = [CHR '' '', CHR ''{'']"
      then show ?thesis using solid_not_space[OF solid_where sp] by simp
    next
      assume "u = [CHR ''{'']"
      then show ?thesis by (auto simp: matches_where fold_case_def)
    qed
  next
    case 2
    then have l: "length w \<le> 5" using sh(2) by (metis length_append le_add2)
    show ?thesis
    proof
      assume "matches m_where (u @ z)"
      then have "matches m_where (w @ CHR '' '' # (CHR ''{'' # z))" using 2 by simp
      then have "matches m_where w" by (rule solid_fit[OF solid_where sp])
      then show False using solid_len[OF solid_where, of w] l by simp
    qed
  qed
next
  fix s rep rest u
  assume m: "m_where s = Some (rep, rest)" and a: "matches m_where (u @ rep @ rest)"
  from m obtain K where sh: "s = K @ CHR ''{'' # rest" "rep = K @ [CHR '' '', CHR ''{'']"
    by (rule m_where_shape)
  have "matches m_where (u @ (K @ [CHR ''{'']) @ rest)"
    by (rule solid_inv[OF solid_where, of "CHR '' ''" u K "[CHR ''{'']" rest])
       (use a sh in \<open>simp_all add: is_space_def\<close>)
  then show "matches m_where (u @ s)" using sh by simp
next
  show "\<not> matches m_where []" by (simp add: matches_where)
qed

text \<open>The dot pattern.\<close>

lemma matches_dot:
  "matches m_dot s \<longleftrightarrow>
     (\<exists>r r2. s = CHR ''?'' # r \<and> takeWhile is_word r \<noteq> []
        \<and> dropWhile is_space (dropWhile is_word r) = CHR ''}'' # r2)"
  by (auto simp: matches_def m_dot_def Let_def simp del: dropWhile_eq_Nil_conv
        split: list.splits)

lemma dot_mono: "matches m_dot u \<Longrightarrow> matches m_dot (u @ z)"
proof -
  assume "matches m_dot u"
  then obtain r r2 where u: "u = CHR ''?'' # r" and w: "takeWhile is_word r \<noteq> []"
    and d: "dropWhile is_space (dropWhile is_word r) = CHR ''}'' # r2"
    unfolding matches_dot by blast
  define d1 where "d1 = dropWhile is_word r"
  have "d1 \<noteq> []"
  proof
    assume "d1 = []"
    with d show False unfolding d1_def by (simp del: dropWhile_eq_Nil_conv)
  qed
  then obtain x where x: "x \<in> set r" "\<not> is_word x"
    unfolding d1_def by (auto simp: dropWhile_eq_Nil_conv)
  then have t: "takeWhile is_word (r @ z) = takeWhile is_word r"
    and dw: "dropWhile is_word (r @ z) = d1 @ z"
    unfolding d1_def by (simp_all add: takeWhile_append1 dropWhile_append1)
  from d obtain y where "y \<in> set d1" "\<not> is_space y"
    unfolding d1_def[symmetric] by (metis dropWhile_eq_Nil_conv list.distinct(1))
  then have "dropWhile is_space (d1 @ z) = dropWhile is_space d1 @ z"
    by (simp add: dropWhile_append1)
  with d have "dropWhile is_space (dropWhile is_word (r @ z)) = CHR ''}'' # (r2 @ z)"
    unfolding dw d1_def by simp
  with t w u show ?thesis unfolding matches_dot by auto
qed

lemma dot_fit:
  assumes k1: "is_space k1" and k2: "\<not> is_space k2" "k2 \<noteq> CHR ''}''"
    and m: "matches m_dot (u @ k1 # k2 # z)"
  shows "matches m_dot u"
proof -
  from m obtain r r2 where s: "u @ k1 # k2 # z = CHR ''?'' # r"
    and w: "takeWhile is_word r \<noteq> []"
    and d: "dropWhile is_space (dropWhile is_word r) = CHR ''}'' # r2"
    unfolding matches_dot by blast
  have "u \<noteq> []" using s k1 by (auto simp: is_space_def)
  then obtain r' where u: "u = CHR ''?'' # r'" and r: "r = r' @ k1 # k2 # z"
    using s by (cases u) auto
  have nw: "\<not> is_word k1" by (rule space_not_word[OF k1])
  have t: "takeWhile is_word r = takeWhile is_word r'"
    unfolding r by (rule takeWhile_stop[of is_word k1 r' "k2 # z", OF nw])
  have dw: "dropWhile is_word r = dropWhile is_word r' @ k1 # k2 # z"
    unfolding r by (rule dropWhile_stop[of is_word k1 r' "k2 # z", OF nw])
  define d1 where "d1 = dropWhile is_word r'"
  have "\<not> (\<forall>x\<in>set d1. is_space x)"
  proof
    assume "\<forall>x\<in>set d1. is_space x"
    then have "dropWhile is_space (d1 @ k1 # k2 # z) = k2 # z"
      using k1 k2 by (simp add: dropWhile_append2)
    with d dw d1_def k2 show False by simp
  qed
  then obtain y where y: "y \<in> set d1" "\<not> is_space y" by blast
  then have "dropWhile is_space (d1 @ k1 # k2 # z) = dropWhile is_space d1 @ k1 # k2 # z"
    by (simp add: dropWhile_append1)
  then have e: "dropWhile is_space d1 @ k1 # k2 # z = CHR ''}'' # r2"
    using d dw d1_def by simp
  have "dropWhile is_space d1 \<noteq> []" using y by (auto simp: dropWhile_eq_Nil_conv)
  then obtain h tl where ht: "dropWhile is_space d1 = h # tl"
    by (cases "dropWhile is_space d1") auto
  with e have "h = CHR ''}''" by simp
  with ht have "\<exists>r3. dropWhile is_space d1 = CHR ''}'' # r3" by simp
  with t w u d1_def show ?thesis unfolding matches_dot by auto
qed

lemma clears_dot: "\<not> anywhere (matches m_dot) (re_sub m_dot s)"
proof (rule re_sub_clears[OF shrinks_dot])
  fix s rep rest v u z
  assume m: "m_dot s = Some (rep, rest)" and r: "rep = v @ u" and u: "u \<noteq> []"
  from m obtain w sp where sh: "rep = (CHR ''?'' # w) @ '' . }''" "w \<noteq> []"
    "\<forall>c\<in>set w. is_word c" by (rule m_dot_shape)
  show "\<not> matches m_dot (u @ z)"
  proof (cases v)
    case Nil
    with r sh have "u @ z = CHR ''?'' # (w @ CHR '' '' # CHR ''.'' # CHR '' '' # CHR ''}'' # z)"
      by simp
    moreover have "\<not> is_word (CHR '' '')" by (simp add: is_word_def)
    ultimately show ?thesis using sh(3)
      by (simp add: matches_dot takeWhile_stop dropWhile_stop dropWhile_append2 is_space_def
            dropWhile_eq_Nil_conv[THEN iffD2])
  next
    case (Cons a v')
    with r sh have "v' @ u = w @ '' . }''" by simp
    then have "set (v' @ u) = set (w @ '' . }'')" by simp
    then have "set u \<subseteq> set w \<union> set '' . }''" unfolding set_append by blast
    moreover have "hd u \<in> set u" using u by simp
    moreover have "\<not> is_word (CHR ''?'')" by (simp add: is_word_def)
    ultimately have "hd u \<noteq> CHR ''?''" using sh(3) by auto
    then show ?thesis using u by (cases u) (auto simp: matches_dot)
  qed
next
  fix s rep rest u
  assume m: "m_dot s = Some (rep, rest)" and a: "matches m_dot (u @ rep @ rest)"
  from m obtain w sp where sh: "s = (CHR ''?'' # w) @ (sp @ [CHR ''}'']) @ rest"
    "rep = (CHR ''?'' # w) @ '' . }''" by (rule m_dot_shape)
  from a sh have "matches m_dot ((u @ CHR ''?'' # w) @ CHR '' '' # CHR ''.'' # (CHR '' '' # CHR ''}'' # rest))"
    by simp
  then have "matches m_dot (u @ CHR ''?'' # w)"
    by (rule dot_fit[rotated 3]) (simp_all add: is_space_def)
  then have "matches m_dot ((u @ CHR ''?'' # w) @ (sp @ [CHR ''}'']) @ rest)" by (rule dot_mono)
  then show "matches m_dot (u @ s)" using sh by simp
next
  show "\<not> matches m_dot []" by (simp add: matches_dot)
qed

lemma back_strip:
  assumes mono: "\<And>u z. P u \<Longrightarrow> P (u @ z)" and a: "anywhere P (strip s)"
  shows "anywhere P s"
proof -
  obtain l r where lr: "s = l @ strip s @ r" using strip_decomp by blast
  from a have "anywhere P (strip s @ r)" by (rule anywhere_mono_right[rotated]) (rule mono)
  then have "anywhere P (l @ strip s @ r)" by (rule anywhere_append)
  with lr show ?thesis by simp
qed

lemma dot_needs_mark: "matches m_dot (c # z) \<Longrightarrow> c = CHR ''?''"
  by (auto simp: matches_dot)

lemma dot_back_add_where:
  "anywhere (matches m_dot) (pre @ re_sub m_add_where s) \<Longrightarrow> anywhere (matches m_dot) (pre @ s)"
proof (rule re_sub_lift[where R = "anywhere (matches m_dot)"])
  fix pre s rep rest
  assume m: "m_add_where s = Some (rep, rest)"
    and a: "anywhere (matches m_dot) (pre @ rep @ rest)"
  from m obtain K t where sh: "s = (K @ t) @ CHR ''{'' # rest" "rep = (K @ t) @ '' WHERE {''"
    by (rule m_add_where_shape)
  have "anywhere (matches m_dot) ((pre @ K @ t) @ '' WHERE {'' @ rest)
        \<Longrightarrow> anywhere (matches m_dot) ((pre @ K @ t) @ [CHR ''{''] @ rest)"
  proof (rule anywhere_edit)
    fix u :: string
    assume "matches m_dot (u @ '' WHERE {'' @ rest)"
    then have "matches m_dot (u @ CHR '' '' # CHR ''W'' # (''HERE {'' @ rest))" by simp
    then have "matches m_dot u" by (rule dot_fit[rotated 3]) (simp_all add: is_space_def)
    then show "matches m_dot (u @ [CHR ''{''] @ rest)" by (rule dot_mono)
  next
    assume "anywhere (matches m_dot) ('' WHERE {'' @ rest)"
    then show "anywhere (matches m_dot) ([CHR ''{''] @ rest)"
      by (auto dest: dot_needs_mark)
  qed
  with a sh show "anywhere (matches m_dot) (pre @ s)" by simp
qed

lemma dot_spaces:
  assumes c: "is_space c" and sp: "\<forall>x\<in>set sp. is_space x"
    and m: "matches m_dot (u @ CHR '' '' # rest)"
  shows "matches m_dot (u @ (c # sp) @ rest)"
proof -
  from m obtain r r2 where s: "u @ CHR '' '' # rest = CHR ''?'' # r"
    and w: "takeWhile is_word r \<noteq> []"
    and d: "dropWhile is_space (dropWhile is_word r) = CHR ''}'' # r2"
    unfolding matches_dot by blast
  have "u \<noteq> []" using s by auto
  then obtain r' where u: "u = CHR ''?'' # r'" and r: "r = r' @ CHR '' '' # rest"
    using s by (cases u) auto
  have sp1: "is_space (CHR '' '')" by (simp add: is_space_def)
  have nw: "\<not> is_word (CHR '' '')" "\<not> is_word c"
    using space_not_word[OF sp1] space_not_word[OF c] by auto
  define d1 where "d1 = dropWhile is_word r'"
  have t: "takeWhile is_word (r' @ c # sp @ rest) = takeWhile is_word r"
    unfolding r using takeWhile_stop[of is_word "CHR '' ''" r' rest]
      takeWhile_stop[of is_word c r' "sp @ rest"] nw by simp
  have dn: "dropWhile is_word r = d1 @ CHR '' '' # rest"
    unfolding r d1_def by (rule dropWhile_stop[of is_word "CHR '' ''" r' rest, OF nw(1)])
  have dold: "dropWhile is_word (r' @ c # sp @ rest) = d1 @ c # sp @ rest"
    unfolding d1_def by (rule dropWhile_stop[of is_word c r' "sp @ rest", OF nw(2)])
  have "\<exists>r3. dropWhile is_space (d1 @ c # sp @ rest) = CHR ''}'' # r3"
  proof (cases "\<forall>x\<in>set d1. is_space x")
    case True
    then have "dropWhile is_space (d1 @ CHR '' '' # rest) = dropWhile is_space rest"
      by (simp add: dropWhile_append2 sp1)
    moreover have "dropWhile is_space (d1 @ c # sp @ rest) = dropWhile is_space rest"
      using True c sp by (simp add: dropWhile_append2)
    ultimately show ?thesis using d dn by simp
  next
    case False
    then obtain y where y: "y \<in> set d1" "\<not> is_space y" by blast
    then have 1: "dropWhile is_space (d1 @ CHR '' '' # rest) = dropWhile is_space d1 @ CHR '' '' # rest"
      and 2: "dropWhile is_space (d1 @ c # sp @ rest) = dropWhile is_space d1 @ c # sp @ rest"
      by (simp_all add: dropWhile_append1)
    have "dropWhile is_space d1 \<noteq> []" using y by (auto simp: dropWhile_eq_Nil_conv)
    then obtain h tl where ht: "dropWhile is_space d1 = h # tl"
      by (cases "dropWhile is_space d1") auto
    with 1 d dn have "h = CHR ''}''" by simp
    with 2 ht show ?thesis by simp
  qed
  with t w u dold show ?thesis unfolding matches_dot by auto
qed

lemma dot_back_spaces:
  "anywhere (matches m_dot) (pre @ re_sub m_spaces s) \<Longrightarrow> anywhere (matches m_dot) (pre @ s)"
proof (rule re_sub_lift[where R = "anywhere (matches m_dot)"])
  fix pre s rep rest
  assume m: "m_spaces s = Some (rep, rest)"
    and a: "anywhere (matches m_dot) (pre @ rep @ rest)"
  from m obtain c sp where sh: "s = c # sp @ rest" "rep = [CHR '' '']" "is_space c"
    "\<forall>x\<in>set sp. is_space x" by (rule m_spaces_shape)
  have "anywhere (matches m_dot) (pre @ [CHR '' ''] @ rest)
        \<Longrightarrow> anywhere (matches m_dot) (pre @ (c # sp) @ rest)"
  proof (rule anywhere_edit)
    fix u :: string
    assume "matches m_dot (u @ [CHR '' ''] @ rest)"
    then show "matches m_dot (u @ (c # sp) @ rest)"
      using dot_spaces[OF sh(3,4), of u rest] by simp
  next
    assume "anywhere (matches m_dot) ([CHR '' ''] @ rest)"
    then have "anywhere (matches m_dot) rest" by (auto dest: dot_needs_mark)
    then show "anywhere (matches m_dot) ((c # sp) @ rest)" by (rule anywhere_append)
  qed
  with a sh show "anywhere (matches m_dot) (pre @ s)" by simp
qed

lemma dot_back_collapse:
  assumes "anywhere (matches m_dot) (collapse_spaces s)" shows "anywhere (matches m_dot) s"
proof -
  from assms have "anywhere (matches m_dot) ([] @ re_sub m_spaces s)"
    unfolding collapse_spaces_def using back_strip[of "matches m_dot"] dot_mono by simp
  then have "anywhere (matches m_dot) ([] @ s)" by (rule dot_back_spaces)
  then show ?thesis by simp
qed

lemma dot_back_add_where':
  assumes "anywhere (matches m_dot) (add_where s)" shows "anywhere (matches m_dot) s"
proof (cases "py_in (code_points ''WHERE'') (upper s)")
  case True
  with assms show ?thesis by (simp add: add_where_def)
next
  case False
  with assms have "anywhere (matches m_dot) ([] @ re_sub m_add_where s)"
    by (simp add: add_where_def)
  then have "anywhere (matches m_dot) ([] @ s)" by (rule dot_back_add_where)
  then show ?thesis by simp
qed

subsection \<open>The keyword test and the insertion of \<open>WHERE\<close>\<close>

text \<open>The keyword test of step 8, on the text itself.\<close>

lemma upper_cp_cases: "upper_cp c = [83, 83] \<or> (\<exists>n. upper_cp c = [n])"
  by (auto simp: upper_cp_def Let_def)

lemma upper_cp_letter:
  assumes "upper_cp c = [of_char p]" and "65 \<le> (of_char p :: nat)" "(of_char p :: nat) \<le> 90"
  shows "fold_case c = fold_case p"
proof -
  have "(of_char c :: nat) = of_char p \<or> (of_char c :: nat) = of_char p + 32"
    using assms
    by (auto simp: upper_cp_def Let_def simp del: of_char_eq_iff split: if_splits)
  then show ?thesis using assms(2,3)
    by (auto simp: fold_case_def Let_def simp del: of_char_eq_iff)
qed

lemma upper_Cons': "upper (c # cs) = upper_cp c @ upper cs"
  by (simp add: upper_def)

lemma prefix_upper_ci:
  assumes "\<forall>p\<in>set ps. 65 \<le> (of_char p :: nat) \<and> (of_char p :: nat) \<le> 90 \<and> (of_char p :: nat) \<noteq> 83"
  shows "prefix (code_points ps) (upper s) \<Longrightarrow> ci_prefix ps s"
  using assms
proof (induction ps s rule: ci_prefix.induct)
  case (1 s)
  then show ?case by simp
next
  case (2 p ps)
  then show ?case by (simp add: code_points_def upper_def)
next
  case (3 p ps c cs)
  from upper_cp_cases[of c] show ?case
  proof
    assume "upper_cp c = [83, 83]"
    with 3 show ?thesis by (auto simp: code_points_def upper_Cons' simp del: of_char_eq_iff)
  next
    assume "\<exists>n. upper_cp c = [n]"
    then obtain n where n: "upper_cp c = [n]" by blast
    with "3.prems" have "n = of_char p" "prefix (code_points ps) (upper cs)"
      by (auto simp: code_points_def upper_Cons')
    with n 3 show ?thesis using upper_cp_letter[of c p] by auto
  qed
qed

lemma WHERE_letters:
  "\<forall>p\<in>set ''WHERE''. 65 \<le> (of_char p :: nat) \<and> (of_char p :: nat) \<le> 90 \<and> (of_char p :: nat) \<noteq> 83"
  by simp

lemma keyword_prefix:
  "prefix (code_points ''WHERE'') (upper s) \<longleftrightarrow> ci_prefix ''WHERE'' s"
proof
  assume "prefix (code_points ''WHERE'') (upper s)"
  then show "ci_prefix ''WHERE'' s" by (rule prefix_upper_ci[OF WHERE_letters])
next
  assume "ci_prefix ''WHERE'' s"
  then show "prefix (code_points ''WHERE'') (upper s)" by (rule ci_prefix_upper) auto
qed

lemma keyword_test: "py_in (code_points ''WHERE'') (upper s) \<longleftrightarrow> anywhere (ci_prefix ''WHERE'') s"
proof (induction s)
  case Nil
  then show ?case by (simp add: upper_def code_points_def)
next
  case (Cons c cs)
  have k: "prefix (code_points ''WHERE'') (upper (c # cs)) \<longleftrightarrow> ci_prefix ''WHERE'' (c # cs)"
    by (rule keyword_prefix)
  from upper_cp_cases[of c] show ?case
  proof
    assume d: "upper_cp c = [83, 83]"
    then have "\<not> ci_prefix ''WHERE'' (c # cs)"
      using k by (simp add: upper_Cons' code_points_def)
    moreover have "py_in (code_points ''WHERE'') (upper (c # cs))
        \<longleftrightarrow> py_in (code_points ''WHERE'') (upper cs)"
      using d by (cases "upper cs") (simp_all add: upper_Cons' code_points_def)
    ultimately show ?thesis using Cons by auto
  next
    assume "\<exists>n. upper_cp c = [n]"
    then obtain n where n: "upper_cp c = [n]" by blast
    then have "py_in (code_points ''WHERE'') (upper (c # cs))
        \<longleftrightarrow> prefix (code_points ''WHERE'') (upper (c # cs)) \<or> py_in (code_points ''WHERE'') (upper cs)"
      by (simp add: upper_Cons')
    then show ?thesis using k Cons by simp
  qed
qed

lemma add_where_eq:
  "add_where q = (if anywhere (ci_prefix ''WHERE'') q then q else re_sub m_add_where q)"
  by (simp add: add_where_def keyword_test)

lemma tight_fit: "tight P \<Longrightarrow> is_space k \<Longrightarrow> P (u @ k # z) \<Longrightarrow> P u"
  unfolding tight_def by blast

lemma tight_mono: "tight P \<Longrightarrow> P u \<Longrightarrow> P (u @ z)"
  unfolding tight_def by blast

lemma tight_not_space: "tight P \<Longrightarrow> is_space k \<Longrightarrow> \<not> P (k # z)"
proof
  assume s: "tight P" and k: "is_space k" and p: "P (k # z)"
  have "P []" using tight_fit[OF s k, of "[]" z] p by simp
  then show False using s unfolding tight_def by blast
qed

lemma skip_spaces:
  assumes "\<And>k z. is_space k \<Longrightarrow> \<not> P (k # z)" and "\<forall>x\<in>set sp. is_space x"
  shows "anywhere P (sp @ rest) \<Longrightarrow> anywhere P rest"
  using assms(2) by (induction sp) (auto simp: assms(1))

lemma tight_trailing:
  assumes t: "tight P" and r: "\<forall>x\<in>set r. is_space x" and p: "P (u @ r)"
  shows "P u"
proof (cases r)
  case Nil
  with p show ?thesis by simp
next
  case (Cons k r')
  with r p show ?thesis using tight_fit[OF t, of k u r'] by simp
qed

lemma tight_fwd_strip:
  assumes t: "tight P" and a: "anywhere P s"
  shows "anywhere P (strip s)"
proof -
  obtain l r where lr: "s = l @ strip s @ r" and l: "\<forall>c\<in>set l. is_space c"
    and r: "\<forall>c\<in>set r. is_space c" using strip_decomp by blast
  from a lr have "anywhere P (l @ strip s @ r)" by simp
  then have "anywhere P (strip s @ r)"
    by (rule skip_spaces[rotated 2]) (use l tight_not_space[OF t] in auto)
  then consider v u where "strip s = v @ u" "u \<noteq> []" "P (u @ r)" | "anywhere P r"
    using anywhere_append_cases by blast
  then show ?thesis
  proof cases
    case 1
    then have "P u" using tight_trailing[OF t r] by blast
    with 1 show ?thesis by (simp add: anywhere_appendI)
  next
    case 2
    then have "anywhere P ([] :: string)"
      using skip_spaces[of P r "[]"] r tight_not_space[OF t] by simp
    then show ?thesis using t by (simp add: tight_def)
  qed
qed

lemma tight_fwd_spaces:
  assumes t: "tight P"
  shows "anywhere P (pre @ s) \<Longrightarrow> anywhere P (pre @ re_sub m_spaces s)"
proof (rule re_sub_lift_fwd[where R = "anywhere P"])
  fix pre s rep rest
  assume m: "m_spaces s = Some (rep, rest)" and a: "anywhere P (pre @ s)"
  from m obtain c sp where sh: "s = c # sp @ rest" "rep = [CHR '' '']" "is_space c"
    "\<forall>x\<in>set sp. is_space x" by (rule m_spaces_shape)
  have "anywhere P (pre @ (c # sp) @ rest) \<Longrightarrow> anywhere P (pre @ [CHR '' ''] @ rest)"
  proof (rule anywhere_edit)
    fix u :: string
    assume "P (u @ (c # sp) @ rest)"
    then have "P u" using tight_fit[OF t sh(3), of u "sp @ rest"] by simp
    then show "P (u @ [CHR '' ''] @ rest)" by (rule tight_mono[OF t])
  next
    assume "anywhere P ((c # sp) @ rest)"
    then have "anywhere P rest"
      by (rule skip_spaces[rotated 2]) (use sh tight_not_space[OF t] in auto)
    then show "anywhere P ([CHR '' ''] @ rest)" by (rule anywhere_append)
  qed
  with a sh show "anywhere P (pre @ rep @ rest)" by simp
qed

lemma tight_fwd_collapse: "tight P \<Longrightarrow> anywhere P s \<Longrightarrow> anywhere P (collapse_spaces s)"
  unfolding collapse_spaces_def
  using tight_fwd_strip tight_fwd_spaces[of P "[]"] by simp

lemma tight_keyword: "tight (ci_prefix ''WHERE'')"
  unfolding tight_def
proof (intro conjI allI impI)
  fix u k z
  assume k: "is_space k" and c: "ci_prefix ''WHERE'' (u @ k # z)"
  show "ci_prefix ''WHERE'' u" by (rule ci_prefix_fit[OF c space_fold_WHERE[OF k]])
next
  fix u z :: string
  assume "ci_prefix ''WHERE'' u"
  then show "ci_prefix ''WHERE'' (u @ z)" by (rule ci_prefix_mono)
next
  show "\<not> ci_prefix ''WHERE'' []" by simp
qed

lemma add_where_inserts:
  "anywhere (matches m_add_where) s \<Longrightarrow> anywhere (ci_prefix ''WHERE'') (re_sub m_add_where s)"
proof (induction s)
  case Nil
  then show ?case by (simp add: matches_def m_add_where_def)
next
  case (Cons c cs)
  consider (skip) "m_add_where (c # cs) = None"
      "re_sub m_add_where (c # cs) = c # re_sub m_add_where cs"
    | (hit) rep rest where "m_add_where (c # cs) = Some (rep, rest)" "length rest \<le> length cs"
        "re_sub m_add_where (c # cs) = rep @ re_sub m_add_where rest"
    by (rule re_sub_shrinks_cases[OF shrinks_add_where, of c cs]) auto
  then show ?case
  proof cases
    case skip
    with Cons show ?thesis by (auto simp: matches_def)
  next
    case (hit rep rest)
    from hit(1) obtain K t where "rep = (K @ t) @ '' WHERE {''" by (rule m_add_where_shape)
    then have "re_sub m_add_where (c # cs)
        = (K @ t @ '' '') @ (''WHERE'' @ CHR '' '' # CHR ''{'' # re_sub m_add_where rest)"
      using hit(3) by simp
    moreover have "ci_prefix ''WHERE'' (''WHERE'' @ CHR '' '' # CHR ''{'' # re_sub m_add_where rest)"
      by (rule ci_prefix_mono) simp
    ultimately show ?thesis by (simp only: anywhere_appendI)
  qed
qed

text \<open>The pattern of step 8 going back through the white-space collapse.\<close>

lemma matches_add_where:
  "matches m_add_where s \<longleftrightarrow>
     ci_prefix ''SELECT'' s
     \<and> dropWhile (\<lambda>c. c \<noteq> CHR ''{'') (drop 6 s) \<noteq> []
     \<and> 2 \<le> length (takeWhile (\<lambda>c. c \<noteq> CHR ''{'') (drop 6 s))
     \<and> is_space (hd (takeWhile (\<lambda>c. c \<noteq> CHR ''{'') (drop 6 s)))"
  by (auto simp: matches_def m_add_where_def Let_def simp del: dropWhile_eq_Nil_conv
        split: list.splits)

lemma add_where_mono: "matches m_add_where u \<Longrightarrow> matches m_add_where (u @ z)"
proof -
  assume m: "matches m_add_where u"
  then have ci: "ci_prefix ''SELECT'' u" by (simp add: matches_add_where)
  then have len: "6 \<le> length u" using ci_prefix_length by fastforce
  define r where "r = drop 6 u"
  have dr: "drop 6 (u @ z) = r @ z" using len by (simp add: r_def)
  from m have "dropWhile (\<lambda>c. c \<noteq> CHR ''{'') r \<noteq> []" by (simp add: matches_add_where r_def)
  then obtain x where x: "x \<in> set r" "\<not> x \<noteq> CHR ''{''"
    by (auto simp: dropWhile_eq_Nil_conv)
  then have "takeWhile (\<lambda>c. c \<noteq> CHR ''{'') (r @ z) = takeWhile (\<lambda>c. c \<noteq> CHR ''{'') r"
    and "dropWhile (\<lambda>c. c \<noteq> CHR ''{'') (r @ z) = dropWhile (\<lambda>c. c \<noteq> CHR ''{'') r @ z"
    by (simp_all add: takeWhile_append1 dropWhile_append1)
  with m ci show ?thesis
    unfolding matches_add_where dr r_def[symmetric]
    by (simp add: ci_prefix_mono del: dropWhile_eq_Nil_conv)
qed

lemma add_where_spaces:
  assumes c: "is_space c" and sp: "\<forall>x\<in>set sp. is_space x"
    and m: "matches m_add_where (u @ CHR '' '' # rest)"
  shows "matches m_add_where (u @ (c # sp) @ rest)"
proof -
  let ?Q = "\<lambda>c. c \<noteq> CHR ''{''"
  have sp1: "is_space (CHR '' '')" by (simp add: is_space_def)
  from m have ci: "ci_prefix ''SELECT'' u"
    using ci_prefix_fit[OF _ space_fold_SELECT[OF sp1]] by (auto simp: matches_add_where)
  then have len: "6 \<le> length u" using ci_prefix_length by fastforce
  define r where "r = drop 6 u"
  have dn: "drop 6 (u @ CHR '' '' # rest) = r @ CHR '' '' # rest"
    and dold: "drop 6 (u @ (c # sp) @ rest) = r @ c # sp @ rest"
    using len by (simp_all add: r_def)
  have qc: "?Q c" "\<forall>x\<in>set sp. ?Q x" "?Q (CHR '' '')"
    using c sp space_not_mark by auto
  from m have mn: "dropWhile ?Q (r @ CHR '' '' # rest) \<noteq> []"
      "2 \<le> length (takeWhile ?Q (r @ CHR '' '' # rest))"
      "is_space (hd (takeWhile ?Q (r @ CHR '' '' # rest)))"
    unfolding matches_add_where dn by simp_all
  have "dropWhile ?Q (r @ c # sp @ rest) \<noteq> []
      \<and> 2 \<le> length (takeWhile ?Q (r @ c # sp @ rest))
      \<and> is_space (hd (takeWhile ?Q (r @ c # sp @ rest)))"
  proof (cases "\<forall>x\<in>set r. ?Q x")
    case True
    then have tn: "takeWhile ?Q (r @ CHR '' '' # rest) = r @ CHR '' '' # takeWhile ?Q rest"
      and dnn: "dropWhile ?Q (r @ CHR '' '' # rest) = dropWhile ?Q rest"
      by (simp_all add: takeWhile_append2 dropWhile_append2)
    have "takeWhile ?Q (r @ (c # sp) @ rest) = r @ (c # sp) @ takeWhile ?Q rest"
      using True qc by (simp add: takeWhile_append2)
    moreover have "dropWhile ?Q (r @ (c # sp) @ rest) = dropWhile ?Q rest"
      using True qc by (simp add: dropWhile_append2)
    ultimately show ?thesis using mn tn dnn c
      by (cases r) (auto simp del: dropWhile_eq_Nil_conv)
  next
    case False
    then obtain x where "x \<in> set r" "\<not> ?Q x" by blast
    then have "takeWhile ?Q (r @ CHR '' '' # rest) = takeWhile ?Q r"
      "dropWhile ?Q (r @ CHR '' '' # rest) = dropWhile ?Q r @ CHR '' '' # rest"
      "takeWhile ?Q (r @ c # sp @ rest) = takeWhile ?Q r"
      "dropWhile ?Q (r @ c # sp @ rest) = dropWhile ?Q r @ c # sp @ rest"
      by (simp_all add: takeWhile_append1 dropWhile_append1)
    with mn show ?thesis by simp
  qed
  with ci show ?thesis
    unfolding matches_add_where dold by (simp add: ci_prefix_mono del: dropWhile_eq_Nil_conv)
qed

lemma add_where_back_spaces:
  "anywhere (matches m_add_where) (pre @ re_sub m_spaces s)
   \<Longrightarrow> anywhere (matches m_add_where) (pre @ s)"
proof (rule re_sub_lift[where R = "anywhere (matches m_add_where)"])
  fix pre s rep rest
  assume m: "m_spaces s = Some (rep, rest)"
    and a: "anywhere (matches m_add_where) (pre @ rep @ rest)"
  from m obtain c sp where sh: "s = c # sp @ rest" "rep = [CHR '' '']" "is_space c"
    "\<forall>x\<in>set sp. is_space x" by (rule m_spaces_shape)
  have "anywhere (matches m_add_where) (pre @ [CHR '' ''] @ rest)
        \<Longrightarrow> anywhere (matches m_add_where) (pre @ (c # sp) @ rest)"
  proof (rule anywhere_edit)
    fix u :: string
    assume "matches m_add_where (u @ [CHR '' ''] @ rest)"
    then show "matches m_add_where (u @ (c # sp) @ rest)"
      using add_where_spaces[OF sh(3,4), of u rest] by simp
  next
    assume "anywhere (matches m_add_where) ([CHR '' ''] @ rest)"
    then have "anywhere (matches m_add_where) rest"
      by (auto simp: matches_add_where fold_case_def)
    then show "anywhere (matches m_add_where) ((c # sp) @ rest)" by (rule anywhere_append)
  qed
  with a sh show "anywhere (matches m_add_where) (pre @ s)" by simp
qed

lemma add_where_back_collapse:
  assumes "anywhere (matches m_add_where) (collapse_spaces s)"
  shows "anywhere (matches m_add_where) s"
proof -
  from assms have "anywhere (matches m_add_where) ([] @ re_sub m_spaces s)"
    unfolding collapse_spaces_def using back_strip[of "matches m_add_where"] add_where_mono
    by simp
  then have "anywhere (matches m_add_where) ([] @ s)" by (rule add_where_back_spaces)
  then show ?thesis by simp
qed

text \<open>Step 8 is the identity on the result of step 8 followed by step 9.\<close>

lemma add_where_settled: "add_where (collapse_spaces (add_where v)) = collapse_spaces (add_where v)"
proof (cases "anywhere (ci_prefix ''WHERE'') v")
  case True
  then have "anywhere (ci_prefix ''WHERE'') (collapse_spaces v)"
    by (rule tight_fwd_collapse[OF tight_keyword])
  with True show ?thesis by (simp add: add_where_eq)
next
  case no_kw: False
  show ?thesis
  proof (cases "anywhere (matches m_add_where) v")
    case True
    then have "anywhere (ci_prefix ''WHERE'') (re_sub m_add_where v)" by (rule add_where_inserts)
    then have "anywhere (ci_prefix ''WHERE'') (collapse_spaces (re_sub m_add_where v))"
      by (rule tight_fwd_collapse[OF tight_keyword])
    with no_kw show ?thesis by (simp add: add_where_eq)
  next
    case False
    then have v: "re_sub m_add_where v = v" by (rule re_sub_id)
    have "\<not> anywhere (matches m_add_where) (collapse_spaces v)"
      using False add_where_back_collapse by blast
    then have "re_sub m_add_where (collapse_spaces v) = collapse_spaces v" by (rule re_sub_id)
    with no_kw v show ?thesis by (simp add: add_where_eq)
  qed
qed

subsection \<open>The white-space collapse\<close>

lemma single_spaced_Cons: "\<not> is_space c \<Longrightarrow> single_spaced (c # t) = single_spaced t"
  by (cases t) auto

lemma m_spaces_None: "\<not> is_space c \<Longrightarrow> m_spaces (c # cs) = None"
  by (simp add: m_spaces_def)

lemma m_spaces_Some: "is_space c \<Longrightarrow> m_spaces (c # cs) = Some ('' '', dropWhile is_space cs)"
  by (simp add: m_spaces_def)

lemma length_dropWhile_le': "length (dropWhile P xs) \<le> length xs"
  by (induction xs) auto

lemma re_sub_spaces_Cons:
  "re_sub m_spaces (c # cs) =
     (if is_space c then CHR '' '' # re_sub m_spaces (dropWhile is_space cs)
      else c # re_sub m_spaces cs)"
  by (simp add: m_spaces_None m_spaces_Some length_dropWhile_le')

lemma single_spaced_collapsed: "single_spaced (re_sub m_spaces s)"
proof (induction "length s" arbitrary: s rule: less_induct)
  case less
  show ?case
  proof (cases s)
    case Nil
    then show ?thesis by simp
  next
    case (Cons c cs)
    show ?thesis
    proof (cases "is_space c")
      case False
      then show ?thesis
        using less[of cs] Cons by (simp add: re_sub_spaces_Cons single_spaced_Cons del: re_sub.simps(2))
    next
      case True
      define rest where "rest = dropWhile is_space cs"
      have l: "length rest < length s" unfolding rest_def Cons
        using length_dropWhile_le'[of is_space cs] by simp
      have ih: "single_spaced (re_sub m_spaces rest)" using less[OF l] .
      show ?thesis
      proof (cases rest)
        case Nil
        with True Cons rest_def show ?thesis by (simp add: re_sub_spaces_Cons del: re_sub.simps(2))
      next
        case (Cons d r)
        then have d: "\<not> is_space d" using hd_dropWhile[of is_space cs] rest_def by auto
        then have "re_sub m_spaces rest = d # re_sub m_spaces r"
          using Cons by (simp add: re_sub_spaces_Cons del: re_sub.simps(2))
        with ih d True \<open>s = c # cs\<close> rest_def show ?thesis
          by (simp add: re_sub_spaces_Cons del: re_sub.simps(2))
      qed
    qed
  qed
qed

lemma single_spaced_fixed: "single_spaced s \<Longrightarrow> re_sub m_spaces s = s"
proof (induction s rule: single_spaced.induct)
  case 1
  then show ?case by simp
next
  case (2 c)
  then show ?case by (simp add: re_sub_spaces_Cons del: re_sub.simps(2))
next
  case (3 c d r)
  then show ?case by (auto simp: re_sub_spaces_Cons simp del: re_sub.simps(2))
qed

lemma single_spaced_suffix: "single_spaced (l @ m) \<Longrightarrow> single_spaced m"
proof (induction l)
  case Nil
  then show ?case by simp
next
  case (Cons a l)
  then show ?case by (cases "l @ m") auto
qed

lemma single_spaced_prefix: "single_spaced (m @ r) \<Longrightarrow> single_spaced m"
proof (induction m rule: single_spaced.induct)
  case 1
  then show ?case by simp
next
  case (2 c)
  then show ?case by (cases r) auto
next
  case (3 c d r')
  then show ?case by auto
qed

lemma single_spaced_strip: "single_spaced s \<Longrightarrow> single_spaced (strip s)"
proof -
  assume a: "single_spaced s"
  obtain l r where "s = l @ strip s @ r" using strip_decomp by blast
  with a have "single_spaced (l @ strip s @ r)" by simp
  then have "single_spaced (strip s @ r)" by (rule single_spaced_suffix)
  then show ?thesis by (rule single_spaced_prefix)
qed

lemma dropWhile_id: "s = [] \<or> \<not> P (hd s) \<Longrightarrow> dropWhile P s = s"
  by (cases s) auto

lemma strip_strip: "strip (strip s) = strip s"
proof -
  define d where "d = dropWhile is_space s"
  define e where "e = dropWhile is_space (rev d)"
  have t: "strip s = rev e" unfolding strip_def d_def e_def by simp
  show ?thesis
  proof (cases "e = []")
    case True
    with t have z: "strip s = []" by simp
    have "strip [] = []" by (simp add: strip_def)
    then show ?thesis unfolding z .
  next
    case False
    then have he: "\<not> is_space (hd e)" unfolding e_def using hd_dropWhile by blast
    have "rev d = takeWhile is_space (rev d) @ e" unfolding e_def by simp
    then have "rev (rev d) = rev (takeWhile is_space (rev d) @ e)" by simp
    then have dd: "d = rev e @ rev (takeWhile is_space (rev d))" by (simp only: rev_rev_ident rev_append)
    have "d \<noteq> []" using False e_def by auto
    then have "\<not> is_space (hd d)" unfolding d_def using hd_dropWhile by blast
    moreover have "hd d = hd (rev e)" using dd False by (metis hd_append2 rev_is_Nil_conv)
    ultimately have 1: "dropWhile is_space (rev e) = rev e" by (intro dropWhile_id) simp
    have 2: "dropWhile is_space e = e" using he by (intro dropWhile_id) simp
    show ?thesis unfolding t by (simp add: strip_def 1 2)
  qed
qed

lemma collapse_collapse: "collapse_spaces (collapse_spaces s) = collapse_spaces s"
proof -
  have "single_spaced (strip (re_sub m_spaces s))"
    by (rule single_spaced_strip[OF single_spaced_collapsed])
  then have "re_sub m_spaces (strip (re_sub m_spaces s)) = strip (re_sub m_spaces s)"
    by (rule single_spaced_fixed)
  then show ?thesis by (simp add: collapse_spaces_def strip_strip)
qed

lemma single_spaced_chars: "single_spaced s \<Longrightarrow> c \<in> set s \<Longrightarrow> is_space c \<Longrightarrow> c = CHR '' ''"
  by (induction s rule: single_spaced.induct) auto

lemma replace_absent: "k \<notin> set s \<Longrightarrow> replace s [k] new = s"
proof -
  assume "k \<notin> set s"
  then have "replace_nonempty [k] new s = s" by (induction s) auto
  then show ?thesis by (simp add: replace_def)
qed

lemma collapse_no_newlines: "remove_newlines (collapse_spaces s) = collapse_spaces s"
proof -
  have ss: "single_spaced (collapse_spaces s)"
    unfolding collapse_spaces_def by (rule single_spaced_strip[OF single_spaced_collapsed])
  have "CHR 0x0A \<notin> set (collapse_spaces s)" "CHR 0x0D \<notin> set (collapse_spaces s)"
    using single_spaced_chars[OF ss, of "CHR 0x0A"] single_spaced_chars[OF ss, of "CHR 0x0D"]
    by (auto simp: is_space_def)
  then show ?thesis by (simp add: remove_newlines_def replace_absent)
qed

subsection \<open>The prefix marker stays once it is there\<close>

lemma py_in_anywhere: "py_in p s \<longleftrightarrow> anywhere (prefix p) s"
  by (induction s) auto

lemma prefix_fit: "prefix p (u @ c # z) \<Longrightarrow> c \<notin> set p \<Longrightarrow> prefix p u"
proof -
  assume p: "prefix p (u @ c # z)" and c: "c \<notin> set p"
  then consider "prefix p u" | us where "p = u @ us" "prefix us (c # z)"
    by (auto simp: prefix_append)
  then show ?thesis
  proof cases
    case 1
    then show ?thesis .
  next
    case 2
    with c show ?thesis by (cases us) auto
  qed
qed

lemma marker_marks:
  "CHR ''?'' \<notin> set prefix_marker" "CHR ''*'' \<notin> set prefix_marker"
  "CHR ''{'' \<notin> set prefix_marker" "CHR ''}'' \<notin> set prefix_marker"
  by (simp_all add: prefix_marker_def)

lemma marker_not_space: "is_space k \<Longrightarrow> \<not> prefix prefix_marker (k # z)"
  by (auto simp: prefix_marker_def is_space_def)

lemma marker_trailing:
  assumes r: "\<forall>x\<in>set r. is_space x" and p: "prefix prefix_marker (u @ r)"
  shows "prefix prefix_marker u"
proof -
  from p consider "prefix prefix_marker u" | us where "prefix_marker = u @ us" "prefix us r"
    by (auto simp: prefix_append)
  then show ?thesis
  proof cases
    case 1
    then show ?thesis .
  next
    case 2
    show ?thesis
    proof (cases "us = []")
      case True
      with 2 show ?thesis by simp
    next
      case False
      have "last (u @ us) = last us" using False by (rule last_appendR)
      then have "last prefix_marker = last us" using 2(1) by (simp only:)
      moreover have "last us \<in> set r" using False 2(2) set_mono_prefix by fastforce
      moreover have "last prefix_marker = CHR '':''" by (simp add: prefix_marker_def)
      ultimately have "is_space (CHR '':'')" using r by auto
      then show ?thesis by (simp add: is_space_def)
    qed
  qed
qed

lemma marker_space_split:
  assumes "prefix_marker = u @ c # m2" and "is_space c"
  shows "u = ''PREFIX'' \<and> c = CHR '' '' \<and> m2 = ''progettoMuseo:''"
  using assms
  by (auto simp: prefix_marker_def Cons_eq_append_conv is_space_def)

lemma marker_fwd_insert:
  assumes c0: "c0 \<notin> set prefix_marker"
  shows "anywhere (prefix prefix_marker) (x @ (c0 # e0) @ z)
         \<Longrightarrow> anywhere (prefix prefix_marker) (x @ (CHR '' '' # c0 # e0) @ z)"
proof (rule anywhere_edit)
  fix u :: string
  assume "prefix prefix_marker (u @ (c0 # e0) @ z)"
  then have "prefix prefix_marker u" using prefix_fit[OF _ c0, of u "e0 @ z"] by simp
  then show "prefix prefix_marker (u @ (CHR '' '' # c0 # e0) @ z)" by (rule prefix_prefix)
next
  assume "anywhere (prefix prefix_marker) ((c0 # e0) @ z)"
  then show "anywhere (prefix prefix_marker) ((CHR '' '' # c0 # e0) @ z)" by simp
qed

lemma marker_fwd_select:
  "anywhere (prefix prefix_marker) (pre @ s)
   \<Longrightarrow> anywhere (prefix prefix_marker) (pre @ re_sub m_select s)"
proof (rule re_sub_lift_fwd[where R = "anywhere (prefix prefix_marker)"])
  fix pre s rep rest
  assume m: "m_select s = Some (rep, rest)" and a: "anywhere (prefix prefix_marker) (pre @ s)"
  from m obtain K c where sh: "s = K @ c # rest" "rep = K @ [CHR '' '', c]"
    "c = CHR ''?'' \<or> c = CHR ''*''" by (rule m_select_shape)
  then have "c \<notin> set prefix_marker" using marker_marks by auto
  from marker_fwd_insert[OF this, of "pre @ K" "[]" rest] a sh
  show "anywhere (prefix prefix_marker) (pre @ rep @ rest)" by simp
qed

lemma marker_fwd_where:
  "anywhere (prefix prefix_marker) (pre @ s)
   \<Longrightarrow> anywhere (prefix prefix_marker) (pre @ re_sub m_where s)"
proof (rule re_sub_lift_fwd[where R = "anywhere (prefix prefix_marker)"])
  fix pre s rep rest
  assume m: "m_where s = Some (rep, rest)" and a: "anywhere (prefix prefix_marker) (pre @ s)"
  from m obtain K where sh: "s = K @ CHR ''{'' # rest" "rep = K @ [CHR '' '', CHR ''{'']"
    by (rule m_where_shape)
  from marker_fwd_insert[OF marker_marks(3), of "pre @ K" "[]" rest] a sh
  show "anywhere (prefix prefix_marker) (pre @ rep @ rest)" by simp
qed

lemma marker_fwd_glue:
  "anywhere (prefix prefix_marker) (pre @ s)
   \<Longrightarrow> anywhere (prefix prefix_marker) (pre @ re_sub m_glue s)"
proof (rule re_sub_lift_fwd[where R = "anywhere (prefix prefix_marker)"])
  fix pre s rep rest
  assume m: "m_glue s = Some (rep, rest)" and a: "anywhere (prefix prefix_marker) (pre @ s)"
  from m obtain w1 w2 where sh: "s = (''progettoMuseo:'' @ w1) @ CHR ''?'' # w2 @ rest"
    "rep = (''progettoMuseo:'' @ w1) @ CHR '' '' # CHR ''?'' # w2"
    by (rule m_glue_shape)
  from marker_fwd_insert[OF marker_marks(1), of "pre @ ''progettoMuseo:'' @ w1" w2 rest] a sh
  show "anywhere (prefix prefix_marker) (pre @ rep @ rest)" by simp
qed

lemma marker_fwd_add_where:
  "anywhere (prefix prefix_marker) (pre @ s)
   \<Longrightarrow> anywhere (prefix prefix_marker) (pre @ re_sub m_add_where s)"
proof (rule re_sub_lift_fwd[where R = "anywhere (prefix prefix_marker)"])
  fix pre s rep rest
  assume m: "m_add_where s = Some (rep, rest)"
    and a: "anywhere (prefix prefix_marker) (pre @ s)"
  from m obtain K t where sh: "s = (K @ t) @ CHR ''{'' # rest" "rep = (K @ t) @ '' WHERE {''"
    by (rule m_add_where_shape)
  have "anywhere (prefix prefix_marker) ((pre @ K @ t) @ [CHR ''{''] @ rest)
        \<Longrightarrow> anywhere (prefix prefix_marker) ((pre @ K @ t) @ '' WHERE {'' @ rest)"
  proof (rule anywhere_edit)
    fix u :: string
    assume "prefix prefix_marker (u @ [CHR ''{''] @ rest)"
    then have "prefix prefix_marker u" using prefix_fit[OF _ marker_marks(3), of u rest] by simp
    then show "prefix prefix_marker (u @ '' WHERE {'' @ rest)" by (rule prefix_prefix)
  next
    assume "anywhere (prefix prefix_marker) ([CHR ''{''] @ rest)"
    then have "anywhere (prefix prefix_marker) ('' WHERE '' @ [CHR ''{''] @ rest)"
      by (rule anywhere_append)
    then show "anywhere (prefix prefix_marker) ('' WHERE {'' @ rest)" by simp
  qed
  with a sh show "anywhere (prefix prefix_marker) (pre @ rep @ rest)" by simp
qed

lemma marker_fwd_dot:
  "anywhere (prefix prefix_marker) (pre @ s)
   \<Longrightarrow> anywhere (prefix prefix_marker) (pre @ re_sub m_dot s)"
proof (rule re_sub_lift_fwd[where R = "anywhere (prefix prefix_marker)"])
  fix pre s rep rest
  assume m: "m_dot s = Some (rep, rest)" and a: "anywhere (prefix prefix_marker) (pre @ s)"
  from m obtain w sp where sh: "s = (CHR ''?'' # w) @ (sp @ [CHR ''}'']) @ rest"
    "rep = (CHR ''?'' # w) @ '' . }''" "\<forall>c\<in>set sp. is_space c" by (rule m_dot_shape)
  have "anywhere (prefix prefix_marker) ((pre @ CHR ''?'' # w) @ (sp @ [CHR ''}'']) @ rest)
        \<Longrightarrow> anywhere (prefix prefix_marker) ((pre @ CHR ''?'' # w) @ '' . }'' @ rest)"
  proof (rule anywhere_edit)
    fix u :: string
    assume "prefix prefix_marker (u @ (sp @ [CHR ''}'']) @ rest)"
    then have "prefix prefix_marker (u @ sp)"
      using prefix_fit[OF _ marker_marks(4), of "u @ sp" rest] by simp
    then have "prefix prefix_marker u" by (rule marker_trailing[OF sh(3)])
    then show "prefix prefix_marker (u @ '' . }'' @ rest)" by (rule prefix_prefix)
  next
    assume "anywhere (prefix prefix_marker) ((sp @ [CHR ''}'']) @ rest)"
    then have "anywhere (prefix prefix_marker) (sp @ CHR ''}'' # rest)" by simp
    then have "anywhere (prefix prefix_marker) (CHR ''}'' # rest)"
      by (rule skip_spaces[rotated 2]) (use sh(3) marker_not_space in auto)
    then have "anywhere (prefix prefix_marker) ('' . '' @ CHR ''}'' # rest)"
      by (rule anywhere_append)
    then show "anywhere (prefix prefix_marker) ('' . }'' @ rest)" by simp
  qed
  with a sh show "anywhere (prefix prefix_marker) (pre @ rep @ rest)" by simp
qed

lemma marker_fwd_spaces:
  "anywhere (prefix prefix_marker) (pre @ s)
   \<Longrightarrow> anywhere (prefix prefix_marker) (pre @ re_sub m_spaces s)"
proof (rule re_sub_lift_fwd[where R = "anywhere (prefix prefix_marker)"])
  fix pre s rep rest
  assume m: "m_spaces s = Some (rep, rest)" and a: "anywhere (prefix prefix_marker) (pre @ s)"
  from m obtain c sp where sh: "s = c # sp @ rest" "rep = [CHR '' '']" "is_space c"
    "\<forall>x\<in>set sp. is_space x" by (rule m_spaces_shape)
  have "anywhere (prefix prefix_marker) (pre @ (c # sp) @ rest)
        \<Longrightarrow> anywhere (prefix prefix_marker) (pre @ [CHR '' ''] @ rest)"
  proof (rule anywhere_edit)
    fix u :: string
    assume p: "prefix prefix_marker (u @ (c # sp) @ rest)"
    then have "prefix prefix_marker u
      \<or> (\<exists>us. prefix_marker = u @ us \<and> prefix us (c # sp @ rest))"
      by (auto simp: prefix_append)
    then consider "prefix prefix_marker u"
      | us where "prefix_marker = u @ us" "prefix us (c # sp @ rest)" "us \<noteq> []"
    proof (elim disjE exE conjE)
      fix us
      assume hyp: "\<And>us. prefix_marker = u @ us \<Longrightarrow> prefix us (c # sp @ rest)
        \<Longrightarrow> us \<noteq> [] \<Longrightarrow> thesis"
        and hyp0: "prefix prefix_marker u \<Longrightarrow> thesis"
        and e: "prefix_marker = u @ us" and q: "prefix us (c # sp @ rest)"
      show thesis
      proof (cases "us = []")
        case True
        with e have "prefix prefix_marker u" by simp
        then show ?thesis by (rule hyp0)
      next
        case False
        with e q show ?thesis by (rule hyp)
      qed
    qed
    then show "prefix prefix_marker (u @ [CHR '' ''] @ rest)"
    proof cases
      case 1
      then show ?thesis by (rule prefix_prefix)
    next
      case 2
      then obtain m2 where us: "us = c # m2" "prefix m2 (sp @ rest)" by (cases us) auto
      with 2 have mm: "u = ''PREFIX''" "c = CHR '' ''" "m2 = ''progettoMuseo:''"
        using marker_space_split[of u c m2] sh(3) by auto
      have "sp = []"
      proof (cases sp)
        case Nil
        then show ?thesis .
      next
        case (Cons x sp')
        with us(2) mm(3) have "x = CHR ''p''" by simp
        with Cons sh(4) show ?thesis by (simp add: is_space_def)
      qed
      with p mm show ?thesis by simp
    qed
  next
    assume "anywhere (prefix prefix_marker) ((c # sp) @ rest)"
    then have "anywhere (prefix prefix_marker) rest"
      by (rule skip_spaces[rotated 2]) (use sh marker_not_space in auto)
    then show "anywhere (prefix prefix_marker) ([CHR '' ''] @ rest)" by (rule anywhere_append)
  qed
  with a sh show "anywhere (prefix prefix_marker) (pre @ rep @ rest)" by simp
qed

lemma marker_fwd_strip:
  assumes a: "anywhere (prefix prefix_marker) s"
  shows "anywhere (prefix prefix_marker) (strip s)"
proof -
  obtain l r where lr: "s = l @ strip s @ r" and l: "\<forall>c\<in>set l. is_space c"
    and r: "\<forall>c\<in>set r. is_space c" using strip_decomp by blast
  from a lr have "anywhere (prefix prefix_marker) (l @ strip s @ r)" by simp
  then have "anywhere (prefix prefix_marker) (strip s @ r)"
    by (rule skip_spaces[rotated 2]) (use l marker_not_space in auto)
  then consider v u where "strip s = v @ u" "u \<noteq> []" "prefix prefix_marker (u @ r)"
    | "anywhere (prefix prefix_marker) r"
    using anywhere_append_cases by blast
  then show ?thesis
  proof cases
    case 1
    then have "prefix prefix_marker u" using marker_trailing[OF r] by blast
    with 1 show ?thesis by (simp add: anywhere_appendI)
  next
    case 2
    then have "anywhere (prefix prefix_marker) ([] :: string)"
      using skip_spaces[of "prefix prefix_marker" r "[]"] r marker_not_space by simp
    then show ?thesis by (simp add: prefix_marker_def)
  qed
qed

lemma marker_fwd_collapse:
  "anywhere (prefix prefix_marker) s \<Longrightarrow> anywhere (prefix prefix_marker) (collapse_spaces s)"
  unfolding collapse_spaces_def
  using marker_fwd_strip marker_fwd_spaces[of "[]"] by simp

lemma marker_fwd_add_where':
  "anywhere (prefix prefix_marker) s \<Longrightarrow> anywhere (prefix prefix_marker) (add_where s)"
  unfolding add_where_def using marker_fwd_add_where[of "[]"] by simp

lemma marker_after_add_prefix: "anywhere (prefix prefix_marker) (add_prefix q)"
proof (cases "py_in prefix_marker q")
  case True
  then show ?thesis by (simp add: add_prefix_def py_in_anywhere)
next
  case False
  have "prefix prefix_marker (prefix_declaration @ '' '' @ q)"
    by (simp add: prefix_marker_def prefix_declaration_def)
  then have "anywhere (prefix prefix_marker) (prefix_declaration @ '' '' @ q)"
    by (rule anywhere_here)
  with False show ?thesis by (simp add: add_prefix_def)
qed

subsection \<open>A second repair\<close>

lemma repair_unfold:
  "correct_sparql_syntax_advanced x =
     collapse_spaces (add_where (re_sub m_dot (collapse_spaces (re_sub m_glue
       (re_sub m_where (re_sub m_select (add_prefix (remove_newlines x))))))))"
  by (simp add: correct_sparql_syntax_advanced_def Let_def)

lemma repair_has_marker: "py_in prefix_marker (correct_sparql_syntax_advanced x)"
proof -
  let ?P = "anywhere (prefix prefix_marker)"
  have "?P (add_prefix (remove_newlines x))" by (rule marker_after_add_prefix)
  then have "?P (re_sub m_select (add_prefix (remove_newlines x)))"
    using marker_fwd_select[of "[]"] by simp
  then have "?P (re_sub m_where (re_sub m_select (add_prefix (remove_newlines x))))"
    using marker_fwd_where[of "[]"] by simp
  then have "?P (re_sub m_glue (re_sub m_where (re_sub m_select
      (add_prefix (remove_newlines x)))))"
    using marker_fwd_glue[of "[]"] by simp
  then have "?P (collapse_spaces (re_sub m_glue (re_sub m_where (re_sub m_select
      (add_prefix (remove_newlines x))))))"
    by (rule marker_fwd_collapse)
  then have "?P (re_sub m_dot (collapse_spaces (re_sub m_glue (re_sub m_where (re_sub m_select
      (add_prefix (remove_newlines x)))))))"
    using marker_fwd_dot[of "[]"] by simp
  then have "?P (add_where (re_sub m_dot (collapse_spaces (re_sub m_glue (re_sub m_where
      (re_sub m_select (add_prefix (remove_newlines x))))))))"
    by (rule marker_fwd_add_where')
  then have "?P (correct_sparql_syntax_advanced x)"
    unfolding repair_unfold by (rule marker_fwd_collapse)
  then show ?thesis by (simp add: py_in_anywhere)
qed

lemma solid_back_tail:
  assumes s: "solid P"
    and a: "anywhere P (collapse_spaces (add_where (re_sub m_dot (collapse_spaces v))))"
  shows "anywhere P v"
proof -
  from a have "anywhere P (add_where (re_sub m_dot (collapse_spaces v)))"
    by (rule solid_back_collapse[OF s])
  then have "anywhere P ([] @ re_sub m_dot (collapse_spaces v))"
    using solid_back_add_where'[OF s] by simp
  then have "anywhere P ([] @ collapse_spaces v)" by (rule solid_back_dot[OF s])
  then have "anywhere P (collapse_spaces v)" by simp
  then show ?thesis by (rule solid_back_collapse[OF s])
qed

lemma repair_no_select: "\<not> anywhere (matches m_select) (correct_sparql_syntax_advanced x)"
proof
  let ?P = "anywhere (matches m_select)"
  let ?q = "re_sub m_select (add_prefix (remove_newlines x))"
  assume "?P (correct_sparql_syntax_advanced x)"
  then have "?P (re_sub m_glue (re_sub m_where ?q))"
    unfolding repair_unfold by (rule solid_back_tail[OF solid_select])
  then have "?P ([] @ re_sub m_glue (re_sub m_where ?q))" by simp
  then have "?P ([] @ re_sub m_where ?q)" by (rule solid_back_glue[OF solid_select])
  then have "?P ([] @ ?q)" by (rule solid_back_where[OF solid_select])
  then show False using clears_select by simp
qed

lemma repair_no_where: "\<not> anywhere (matches m_where) (correct_sparql_syntax_advanced x)"
proof
  let ?P = "anywhere (matches m_where)"
  let ?q = "re_sub m_where (re_sub m_select (add_prefix (remove_newlines x)))"
  assume "?P (correct_sparql_syntax_advanced x)"
  then have "?P (re_sub m_glue ?q)"
    unfolding repair_unfold by (rule solid_back_tail[OF solid_where])
  then have "?P ([] @ re_sub m_glue ?q)" by simp
  then have "?P ([] @ ?q)" by (rule solid_back_glue[OF solid_where])
  then show False using clears_where by simp
qed

lemma repair_no_dot: "\<not> anywhere (matches m_dot) (correct_sparql_syntax_advanced x)"
proof
  assume "anywhere (matches m_dot) (correct_sparql_syntax_advanced x)"
  then have "anywhere (matches m_dot) (add_where (re_sub m_dot (collapse_spaces (re_sub m_glue
      (re_sub m_where (re_sub m_select (add_prefix (remove_newlines x))))))))"
    unfolding repair_unfold by (rule dot_back_collapse)
  then have "anywhere (matches m_dot) (re_sub m_dot (collapse_spaces (re_sub m_glue
      (re_sub m_where (re_sub m_select (add_prefix (remove_newlines x)))))))"
    by (rule dot_back_add_where')
  then show False using clears_dot by simp
qed

text \<open>
  Claim C6: the repair is idempotent on every input whose repaired form has no property name
  still glued to a variable, that is, no match of \<open>progettoMuseo:\w+\?\w+\<close> left: for
  such an input \<open>x\<close>, \<open>repair(repair(x))\<close> equals \<open>repair(x)\<close>. For the other inputs it
  need not be: the substitution of the glued names resumes after each match, so a name glued
  to the variable part of the match before it is separated only by the next repair.
\<close>

theorem repair_idempotent_when_settled:
  assumes g: "\<not> anywhere (matches m_glue) (correct_sparql_syntax_advanced x)"
  shows "correct_sparql_syntax_advanced (correct_sparql_syntax_advanced x)
         = correct_sparql_syntax_advanced x"
proof -
  define y where "y = correct_sparql_syntax_advanced x"
  define v where "v = re_sub m_dot (collapse_spaces (re_sub m_glue
       (re_sub m_where (re_sub m_select (add_prefix (remove_newlines x))))))"
  have y: "y = collapse_spaces (add_where v)" unfolding y_def v_def by (rule repair_unfold)
  have s1: "remove_newlines y = y" unfolding y by (rule collapse_no_newlines)
  have s2: "add_prefix y = y" unfolding y_def add_prefix_def using repair_has_marker by simp
  have s3: "re_sub m_select y = y" unfolding y_def by (rule re_sub_id[OF repair_no_select])
  have s4: "re_sub m_where y = y" unfolding y_def by (rule re_sub_id[OF repair_no_where])
  have s5: "re_sub m_glue y = y" using g unfolding y_def by (rule re_sub_id)
  have s6: "collapse_spaces y = y" unfolding y by (rule collapse_collapse)
  have s7: "re_sub m_dot y = y" unfolding y_def by (rule re_sub_id[OF repair_no_dot])
  have s8: "add_where y = y" unfolding y by (rule add_where_settled)
  have "correct_sparql_syntax_advanced y = y"
    unfolding repair_unfold[of y] by (simp only: s1 s2 s3 s4 s5 s6 s7 s8)
  then show ?thesis unfolding y_def .
qed

theorem repair_idempotent_when_settled_witness:
  "\<not> anywhere (matches m_glue)
       (correct_sparql_syntax_advanced ''PREFIX progettoMuseo: <urn:m#> select?x{?x a ?y}'')
   \<and> correct_sparql_syntax_advanced ''PREFIX progettoMuseo: <urn:m#> select?x{?x a ?y}''
       = ''PREFIX progettoMuseo: <urn:m#> select ?x WHERE {?x a ?y . }''
   \<and> correct_sparql_syntax_advanced
         (correct_sparql_syntax_advanced ''PREFIX progettoMuseo: <urn:m#> select?x{?x a ?y}'')
       = correct_sparql_syntax_advanced ''PREFIX progettoMuseo: <urn:m#> select?x{?x a ?y}''"
proof -
  have v: "correct_sparql_syntax_advanced ''PREFIX progettoMuseo: <urn:m#> select?x{?x a ?y}''
       = ''PREFIX progettoMuseo: <urn:m#> select ?x WHERE {?x a ?y . }''"
    by code_simp
  have "\<not> anywhere (matches m_glue)
       ''PREFIX progettoMuseo: <urn:m#> select ?x WHERE {?x a ?y . }''"
    by code_simp
  then have g: "\<not> anywhere (matches m_glue)
       (correct_sparql_syntax_advanced ''PREFIX progettoMuseo: <urn:m#> select?x{?x a ?y}'')"
    unfolding v .
  from repair_idempotent_when_settled[OF g] v g show ?thesis by (simp only: simp_thms)
qed

text \<open>
  An input on which the second repair still changes the text: the first repair separates the
  first glued name and takes the second name for the variable, the second repair separates
  the second one.
\<close>

theorem repair_twice_counterexample:
  "correct_sparql_syntax_advanced ''PREFIX progettoMuseo:a?progettoMuseo:b?c''
     = ''PREFIX progettoMuseo:a ?progettoMuseo:b?c''
   \<and> correct_sparql_syntax_advanced
         (correct_sparql_syntax_advanced ''PREFIX progettoMuseo:a?progettoMuseo:b?c'')
     = ''PREFIX progettoMuseo:a ?progettoMuseo:b ?c''
   \<and> correct_sparql_syntax_advanced
         (correct_sparql_syntax_advanced ''PREFIX progettoMuseo:a?progettoMuseo:b?c'')
     \<noteq> correct_sparql_syntax_advanced ''PREFIX progettoMuseo:a?progettoMuseo:b?c''"
proof -
  have 1: "correct_sparql_syntax_advanced ''PREFIX progettoMuseo:a?progettoMuseo:b?c''
     = ''PREFIX progettoMuseo:a ?progettoMuseo:b?c''"
    by code_simp
  have 2: "correct_sparql_syntax_advanced ''PREFIX progettoMuseo:a ?progettoMuseo:b?c''
     = ''PREFIX progettoMuseo:a ?progettoMuseo:b ?c''"
    by code_simp
  show ?thesis by (simp add: 1 2)
qed

subsection \<open>The prefix declaration\<close>

lemma decl_select:
  "re_sub m_select (prefix_declaration @ t) = prefix_declaration @ re_sub m_select t"
  by (simp add: prefix_declaration_def m_select_def fold_case_def)

lemma decl_where:
  "re_sub m_where (prefix_declaration @ t) = prefix_declaration @ re_sub m_where t"
  by (simp add: prefix_declaration_def m_where_def fold_case_def)

lemma decl_glue:
  "re_sub m_glue (prefix_declaration @ t) = prefix_declaration @ re_sub m_glue t"
  by (simp add: prefix_declaration_def m_glue_def is_word_def)

lemma decl_dot:
  "re_sub m_dot (prefix_declaration @ t) = prefix_declaration @ re_sub m_dot t"
  by (simp add: prefix_declaration_def m_dot_def)

lemma decl_add_where:
  "re_sub m_add_where (prefix_declaration @ t) = prefix_declaration @ re_sub m_add_where t"
  by (simp add: prefix_declaration_def m_add_where_def fold_case_def)

lemma decl_spaces:
  "re_sub m_spaces (prefix_declaration @ t) = prefix_declaration @ re_sub m_spaces t"
  by (simp add: prefix_declaration_def re_sub_spaces_Cons is_space_def del: re_sub.simps(2))

lemma spaced_name_iff:
  "spaced_name r \<longleftrightarrow>
     r \<noteq> [] \<and> is_space (hd r) \<and> prefix ''progettoMuseo:'' (dropWhile is_space r)"
  by (cases r) (auto simp: spaced_name_def)

lemma spaced_markerI: "spaced_name r \<Longrightarrow> spaced_marker (''PREFIX'' @ r)"
  by (simp add: spaced_marker_def)

lemma spaced_markerE:
  assumes "spaced_marker s"
  obtains r where "s = ''PREFIX'' @ r" "spaced_name r"
proof -
  from assms have p: "prefix ''PREFIX'' s" and n: "spaced_name (drop 6 s)"
    by (simp_all add: spaced_marker_def)
  from p obtain r where r: "s = ''PREFIX'' @ r" by (rule prefixE)
  then have "drop 6 s = r" by simp
  with n have "spaced_name r" by simp
  with r show thesis by (rule that)
qed

lemma name_not_space: "is_space k \<Longrightarrow> k \<notin> set ''progettoMuseo:''"
  by (auto simp: is_space_def)

lemma keyword_not_space: "is_space k \<Longrightarrow> k \<notin> set ''PREFIX''"
  by (auto simp: is_space_def)

lemma name_dropWhile:
  assumes "prefix ''progettoMuseo:'' (dropWhile is_space u)"
  shows "dropWhile is_space (u @ z) = dropWhile is_space u @ z"
proof -
  have "dropWhile is_space u \<noteq> []"
  proof
    assume "dropWhile is_space u = []"
    with assms show False by simp
  qed
  then obtain x where "x \<in> set u" "\<not> is_space x" by (auto simp: dropWhile_eq_Nil_conv)
  then show ?thesis by (rule dropWhile_append1)
qed

lemma spaced_name_mono: "spaced_name u \<Longrightarrow> spaced_name (u @ z)"
proof -
  assume "spaced_name u"
  then have u: "u \<noteq> []" "is_space (hd u)" "prefix ''progettoMuseo:'' (dropWhile is_space u)"
    by (simp_all add: spaced_name_iff)
  have "prefix ''progettoMuseo:'' (dropWhile is_space u @ z)" using u(3) by (rule prefix_prefix)
  then have "prefix ''progettoMuseo:'' (dropWhile is_space (u @ z))"
    by (simp only: name_dropWhile[OF u(3)])
  with u(1,2) show ?thesis by (simp add: spaced_name_iff)
qed

lemma spaced_name_fit:
  assumes q: "spaced_name (u @ k # c # z)" and k: "is_space k" and c: "\<not> is_space c"
    and p: "c \<noteq> CHR ''p''"
  shows "spaced_name u"
proof (cases "\<forall>x\<in>set u. is_space x")
  case True
  then have "dropWhile is_space (u @ k # c # z) = dropWhile is_space (k # c # z)"
    by (intro dropWhile_append2) simp
  with k c have "dropWhile is_space (u @ k # c # z) = c # z" by simp
  with q have "prefix ''progettoMuseo:'' (c # z)" by (simp only: spaced_name_iff)
  with p show ?thesis by simp
next
  case False
  then obtain x where x: "x \<in> set u" "\<not> is_space x" by blast
  then have u: "u \<noteq> []" by auto
  from x have "dropWhile is_space (u @ k # c # z) = dropWhile is_space u @ k # c # z"
    by (rule dropWhile_append1)
  with q have "prefix ''progettoMuseo:'' (dropWhile is_space u @ k # c # z)"
    by (simp only: spaced_name_iff)
  then have d: "prefix ''progettoMuseo:'' (dropWhile is_space u)"
    by (rule prefix_fit) (rule name_not_space[OF k])
  from q u have "is_space (hd u)" by (simp add: spaced_name_iff)
  with u d show ?thesis by (simp add: spaced_name_iff)
qed

lemma spaced_name_ws:
  assumes q: "spaced_name (u @ CHR '' '' # rest)" and k: "is_space k"
    and sp: "\<forall>x\<in>set sp. is_space x"
  shows "spaced_name (u @ k # sp @ rest)"
proof (cases "\<forall>x\<in>set u. is_space x")
  case True
  have s: "is_space (CHR '' '')" by (simp add: is_space_def)
  have "dropWhile is_space (u @ CHR '' '' # rest) = dropWhile is_space (CHR '' '' # rest)"
    using True by (intro dropWhile_append2) simp
  then have 1: "dropWhile is_space (u @ CHR '' '' # rest) = dropWhile is_space rest"
    using s by simp
  have "dropWhile is_space (u @ k # sp @ rest) = dropWhile is_space (k # sp @ rest)"
    using True by (intro dropWhile_append2) simp
  also have "\<dots> = dropWhile is_space (sp @ rest)" using k by simp
  also have "\<dots> = dropWhile is_space rest" using sp by (intro dropWhile_append2) simp
  finally have 2: "dropWhile is_space (u @ k # sp @ rest) = dropWhile is_space rest" .
  from q have "prefix ''progettoMuseo:'' (dropWhile is_space rest)"
    by (simp only: spaced_name_iff 1)
  then have d: "prefix ''progettoMuseo:'' (dropWhile is_space (u @ k # sp @ rest))"
    by (simp only: 2)
  have "is_space (hd (u @ k # sp @ rest))"
  proof (cases u)
    case Nil
    with k show ?thesis by simp
  next
    case (Cons a u')
    with True show ?thesis by simp
  qed
  with d show ?thesis by (simp add: spaced_name_iff)
next
  case False
  then obtain x where x: "x \<in> set u" "\<not> is_space x" by blast
  then have u: "u \<noteq> []" by auto
  have s: "is_space (CHR '' '')" by (simp add: is_space_def)
  from x have "dropWhile is_space (u @ CHR '' '' # rest) = dropWhile is_space u @ CHR '' '' # rest"
    by (rule dropWhile_append1)
  with q have "prefix ''progettoMuseo:'' (dropWhile is_space u @ CHR '' '' # rest)"
    by (simp only: spaced_name_iff)
  then have d: "prefix ''progettoMuseo:'' (dropWhile is_space u)"
    by (rule prefix_fit) (rule name_not_space[OF s])
  from q u have "is_space (hd u)" by (simp add: spaced_name_iff)
  with u d have "spaced_name u" by (simp add: spaced_name_iff)
  then show ?thesis by (rule spaced_name_mono)
qed

lemma spaced_marker_mono: "spaced_marker u \<Longrightarrow> spaced_marker (u @ z)"
proof -
  assume "spaced_marker u"
  then obtain r where r: "u = ''PREFIX'' @ r" "spaced_name r" by (rule spaced_markerE)
  from r(2) have "spaced_name (r @ z)" by (rule spaced_name_mono)
  then have "spaced_marker (''PREFIX'' @ (r @ z))" by (rule spaced_markerI)
  with r(1) show ?thesis by simp
qed

lemma spaced_marker_head: "spaced_marker (k # z) \<Longrightarrow> k = CHR ''P''"
  by (simp add: spaced_marker_def)

lemma spaced_marker_not_space: "is_space k \<Longrightarrow> \<not> spaced_marker (k # z)"
  by (auto simp: spaced_marker_def is_space_def)

lemma spaced_marker_split:
  assumes p: "spaced_marker (u @ k # w)" and k: "is_space k"
  obtains r where "u = ''PREFIX'' @ r" "spaced_name (r @ k # w)"
proof -
  from p obtain r0 where r0: "u @ k # w = ''PREFIX'' @ r0" "spaced_name r0"
    by (rule spaced_markerE)
  then have "prefix ''PREFIX'' (u @ k # w)" by simp
  then have "prefix ''PREFIX'' u" by (rule prefix_fit) (rule keyword_not_space[OF k])
  then obtain r where r: "u = ''PREFIX'' @ r" by (rule prefixE)
  with r0(1) have "r0 = r @ k # w" by simp
  with r0(2) have "spaced_name (r @ k # w)" by simp
  with r show thesis by (rule that)
qed

lemma spaced_marker_fit:
  assumes q: "spaced_marker (u @ k # c # z)" and k: "is_space k" and c: "\<not> is_space c"
    and p: "c \<noteq> CHR ''p''"
  shows "spaced_marker u"
proof -
  from q k obtain r where r: "u = ''PREFIX'' @ r" "spaced_name (r @ k # c # z)"
    by (rule spaced_marker_split)
  from r(2) k c p have "spaced_name r" by (rule spaced_name_fit)
  then have "spaced_marker (''PREFIX'' @ r)" by (rule spaced_markerI)
  with r(1) show ?thesis by simp
qed

lemma spaced_marker_ws:
  assumes q: "spaced_marker (u @ CHR '' '' # rest)" and k: "is_space k"
    and sp: "\<forall>x\<in>set sp. is_space x"
  shows "spaced_marker (u @ k # sp @ rest)"
proof -
  have s: "is_space (CHR '' '')" by (simp add: is_space_def)
  from q s obtain r where r: "u = ''PREFIX'' @ r" "spaced_name (r @ CHR '' '' # rest)"
    by (rule spaced_marker_split)
  from r(2) k sp have "spaced_name (r @ k # sp @ rest)" by (rule spaced_name_ws)
  then have "spaced_marker (''PREFIX'' @ (r @ k # sp @ rest))" by (rule spaced_markerI)
  with r(1) show ?thesis by simp
qed

lemma marker_is_spaced: "prefix prefix_marker s \<Longrightarrow> spaced_marker s"
  by (auto simp: prefix_def prefix_marker_def spaced_marker_def spaced_name_def is_space_def)

lemma anywhere_weaken:
  assumes "\<And>s. P s \<Longrightarrow> Q s" shows "anywhere P s \<Longrightarrow> anywhere Q s"
  by (induction s) (auto simp: assms)

text \<open>Inserting a space before a character that is neither white space nor \<open>p\<close>.\<close>

lemma spaced_back_insert:
  assumes c: "\<not> is_space c" "c \<noteq> CHR ''p''" "c \<noteq> CHR ''P''"
  shows "anywhere spaced_marker (x @ [CHR '' ''] @ c # z) \<Longrightarrow> anywhere spaced_marker (x @ [] @ c # z)"
proof (rule anywhere_edit)
  have s: "is_space (CHR '' '')" by (simp add: is_space_def)
  fix u :: string
  assume "spaced_marker (u @ [CHR '' ''] @ c # z)"
  then have "spaced_marker (u @ CHR '' '' # c # z)" by simp
  then have "spaced_marker u" using s c(1,2) by (rule spaced_marker_fit)
  then show "spaced_marker (u @ [] @ c # z)" by (rule spaced_marker_mono)
next
  assume "anywhere spaced_marker ([CHR '' ''] @ c # z)"
  then show "anywhere spaced_marker ([] @ c # z)"
    by (auto dest: spaced_marker_head)
qed

lemma spaced_back_select:
  "anywhere spaced_marker (pre @ re_sub m_select s) \<Longrightarrow> anywhere spaced_marker (pre @ s)"
proof (rule re_sub_lift[where R = "anywhere spaced_marker"])
  fix pre s rep rest
  assume m: "m_select s = Some (rep, rest)" and a: "anywhere spaced_marker (pre @ rep @ rest)"
  from m obtain K c where sh: "s = K @ c # rest" "rep = K @ [CHR '' '', c]"
    "c = CHR ''?'' \<or> c = CHR ''*''" by (rule m_select_shape)
  then have c: "\<not> is_space c" "c \<noteq> CHR ''p''" "c \<noteq> CHR ''P''" by (auto simp: is_space_def)
  from a sh have "anywhere spaced_marker ((pre @ K) @ [CHR '' ''] @ c # rest)" by simp
  then have "anywhere spaced_marker ((pre @ K) @ [] @ c # rest)" by (rule spaced_back_insert[OF c])
  with sh show "anywhere spaced_marker (pre @ s)" by simp
qed

lemma spaced_back_where:
  "anywhere spaced_marker (pre @ re_sub m_where s) \<Longrightarrow> anywhere spaced_marker (pre @ s)"
proof (rule re_sub_lift[where R = "anywhere spaced_marker"])
  fix pre s rep rest
  assume m: "m_where s = Some (rep, rest)" and a: "anywhere spaced_marker (pre @ rep @ rest)"
  from m obtain K where sh: "s = K @ CHR ''{'' # rest" "rep = K @ [CHR '' '', CHR ''{'']"
    by (rule m_where_shape)
  have c: "\<not> is_space (CHR ''{'')" "CHR ''{'' \<noteq> CHR ''p''" "CHR ''{'' \<noteq> CHR ''P''"
    by (auto simp: is_space_def)
  from a sh have "anywhere spaced_marker ((pre @ K) @ [CHR '' ''] @ CHR ''{'' # rest)" by simp
  then have "anywhere spaced_marker ((pre @ K) @ [] @ CHR ''{'' # rest)"
    by (rule spaced_back_insert[OF c])
  with sh show "anywhere spaced_marker (pre @ s)" by simp
qed

lemma spaced_back_glue:
  "anywhere spaced_marker (pre @ re_sub m_glue s) \<Longrightarrow> anywhere spaced_marker (pre @ s)"
proof (rule re_sub_lift[where R = "anywhere spaced_marker"])
  fix pre s rep rest
  assume m: "m_glue s = Some (rep, rest)" and a: "anywhere spaced_marker (pre @ rep @ rest)"
  from m obtain w1 w2 where sh: "s = (''progettoMuseo:'' @ w1) @ CHR ''?'' # w2 @ rest"
    "rep = (''progettoMuseo:'' @ w1) @ CHR '' '' # CHR ''?'' # w2"
    by (rule m_glue_shape)
  have c: "\<not> is_space (CHR ''?'')" "CHR ''?'' \<noteq> CHR ''p''" "CHR ''?'' \<noteq> CHR ''P''"
    by (auto simp: is_space_def)
  from a sh have "anywhere spaced_marker
      ((pre @ ''progettoMuseo:'' @ w1) @ [CHR '' ''] @ CHR ''?'' # (w2 @ rest))" by simp
  then have "anywhere spaced_marker
      ((pre @ ''progettoMuseo:'' @ w1) @ [] @ CHR ''?'' # (w2 @ rest))"
    by (rule spaced_back_insert[OF c])
  with sh show "anywhere spaced_marker (pre @ s)" by simp
qed

lemma spaced_back_spaces:
  "anywhere spaced_marker (pre @ re_sub m_spaces s) \<Longrightarrow> anywhere spaced_marker (pre @ s)"
proof (rule re_sub_lift[where R = "anywhere spaced_marker"])
  fix pre s rep rest
  assume m: "m_spaces s = Some (rep, rest)" and a: "anywhere spaced_marker (pre @ rep @ rest)"
  from m obtain c sp where sh: "s = c # sp @ rest" "rep = [CHR '' '']" "is_space c"
    "\<forall>x\<in>set sp. is_space x" by (rule m_spaces_shape)
  have "anywhere spaced_marker (pre @ [CHR '' ''] @ rest)
        \<Longrightarrow> anywhere spaced_marker (pre @ (c # sp) @ rest)"
  proof (rule anywhere_edit)
    fix u :: string
    assume "spaced_marker (u @ [CHR '' ''] @ rest)"
    then have "spaced_marker (u @ CHR '' '' # rest)" by simp
    then have "spaced_marker (u @ c # sp @ rest)" using sh(3,4) by (rule spaced_marker_ws)
    then show "spaced_marker (u @ (c # sp) @ rest)" by simp
  next
    assume "anywhere spaced_marker ([CHR '' ''] @ rest)"
    then have "anywhere spaced_marker rest" by (auto dest: spaced_marker_head)
    then show "anywhere spaced_marker ((c # sp) @ rest)" by (rule anywhere_append)
  qed
  with a sh show "anywhere spaced_marker (pre @ s)" by simp
qed

lemma spaced_back_dot:
  "anywhere spaced_marker (pre @ re_sub m_dot s) \<Longrightarrow> anywhere spaced_marker (pre @ s)"
proof (rule re_sub_lift[where R = "anywhere spaced_marker"])
  fix pre s rep rest
  assume m: "m_dot s = Some (rep, rest)" and a: "anywhere spaced_marker (pre @ rep @ rest)"
  from m obtain w sp where sh: "s = (CHR ''?'' # w) @ (sp @ [CHR ''}'']) @ rest"
    "rep = (CHR ''?'' # w) @ '' . }''" by (rule m_dot_shape)
  have "anywhere spaced_marker ((pre @ CHR ''?'' # w) @ '' . }'' @ rest)
        \<Longrightarrow> anywhere spaced_marker ((pre @ CHR ''?'' # w) @ (sp @ [CHR ''}'']) @ rest)"
  proof (rule anywhere_edit)
    have s: "is_space (CHR '' '')" "\<not> is_space (CHR ''.'')" "CHR ''.'' \<noteq> CHR ''p''"
      by (simp_all add: is_space_def)
    fix u :: string
    assume "spaced_marker (u @ '' . }'' @ rest)"
    then have "spaced_marker (u @ CHR '' '' # CHR ''.'' # ('' }'' @ rest))" by simp
    then have "spaced_marker u" using s by (rule spaced_marker_fit)
    then show "spaced_marker (u @ (sp @ [CHR ''}'']) @ rest)" by (rule spaced_marker_mono)
  next
    assume "anywhere spaced_marker ('' . }'' @ rest)"
    then have "anywhere spaced_marker rest" by (auto dest: spaced_marker_head)
    then show "anywhere spaced_marker ((sp @ [CHR ''}'']) @ rest)" by (rule anywhere_append)
  qed
  with a sh show "anywhere spaced_marker (pre @ s)" by simp
qed

lemma spaced_back_add_where:
  "anywhere spaced_marker (pre @ re_sub m_add_where s) \<Longrightarrow> anywhere spaced_marker (pre @ s)"
proof (rule re_sub_lift[where R = "anywhere spaced_marker"])
  fix pre s rep rest
  assume m: "m_add_where s = Some (rep, rest)"
    and a: "anywhere spaced_marker (pre @ rep @ rest)"
  from m obtain K t where sh: "s = (K @ t) @ CHR ''{'' # rest" "rep = (K @ t) @ '' WHERE {''"
    by (rule m_add_where_shape)
  have "anywhere spaced_marker ((pre @ K @ t) @ '' WHERE {'' @ rest)
        \<Longrightarrow> anywhere spaced_marker ((pre @ K @ t) @ [CHR ''{''] @ rest)"
  proof (rule anywhere_edit)
    have s: "is_space (CHR '' '')" "\<not> is_space (CHR ''W'')" "CHR ''W'' \<noteq> CHR ''p''"
      by (simp_all add: is_space_def)
    fix u :: string
    assume "spaced_marker (u @ '' WHERE {'' @ rest)"
    then have "spaced_marker (u @ CHR '' '' # CHR ''W'' # (''HERE {'' @ rest))" by simp
    then have "spaced_marker u" using s by (rule spaced_marker_fit)
    then show "spaced_marker (u @ [CHR ''{''] @ rest)" by (rule spaced_marker_mono)
  next
    assume "anywhere spaced_marker ('' WHERE {'' @ rest)"
    then have "anywhere spaced_marker rest" by (auto dest: spaced_marker_head)
    then show "anywhere spaced_marker ([CHR ''{''] @ rest)" by (rule anywhere_append)
  qed
  with a sh show "anywhere spaced_marker (pre @ s)" by simp
qed

lemma replace_single:
  "replace s [k] [n] = map (\<lambda>c. if c = k then n else c) s"
  by (induction s) (auto simp: replace_def)

lemma remove_newlines_map: "remove_newlines s = map blank s"
  by (simp add: remove_newlines_def replace_single blank_def)

lemma blank_space: "is_space (blank c) \<longleftrightarrow> is_space c"
  by (simp add: blank_def is_space_def)

lemma blank_fixed: "\<not> is_space c \<Longrightarrow> blank c = c"
  by (auto simp: blank_def is_space_def)

lemma blank_literal:
  assumes l: "\<forall>c\<in>set l. \<not> is_space c" and p: "prefix l (map blank s)"
  shows "prefix l s"
  using assms
proof (induction l arbitrary: s)
  case Nil
  then show ?case by simp
next
  case (Cons a l)
  from Cons.prems(2) obtain c s' where s: "s = c # s'" by (cases s) auto
  with Cons.prems(2) have a: "blank c = a" and p: "prefix l (map blank s')" by simp_all
  from Cons.prems(1) a have "\<not> is_space (blank c)" by simp
  then have "\<not> is_space c" by (simp add: blank_space)
  then have "c = a" using a by (simp add: blank_fixed)
  moreover have "prefix l s'" using Cons.IH[of s'] Cons.prems(1) p by simp
  ultimately show ?case using s by simp
qed

lemma blank_dropWhile: "dropWhile is_space (map blank s) = map blank (dropWhile is_space s)"
  by (induction s) (simp_all add: blank_space)

lemma blank_name: "spaced_name (map blank r) \<Longrightarrow> spaced_name r"
proof -
  assume q: "spaced_name (map blank r)"
  then have r: "r \<noteq> []" and h: "is_space (hd (map blank r))"
    and p: "prefix ''progettoMuseo:'' (dropWhile is_space (map blank r))"
    by (simp_all add: spaced_name_iff)
  from r h have "is_space (hd r)" by (simp add: hd_map blank_space)
  moreover from p have "prefix ''progettoMuseo:'' (map blank (dropWhile is_space r))"
    by (simp only: blank_dropWhile)
  then have "prefix ''progettoMuseo:'' (dropWhile is_space r)"
    by (rule blank_literal[rotated]) (simp add: is_space_def)
  ultimately show ?thesis using r by (simp add: spaced_name_iff)
qed

lemma blank_marker: "spaced_marker (map blank s) \<Longrightarrow> spaced_marker s"
proof -
  assume q: "spaced_marker (map blank s)"
  then have p: "prefix ''PREFIX'' (map blank s)" and n: "spaced_name (drop 6 (map blank s))"
    by (simp_all add: spaced_marker_def)
  from p have "prefix ''PREFIX'' s"
    by (rule blank_literal[rotated]) (simp add: is_space_def)
  moreover from n have "spaced_name (map blank (drop 6 s))" by (simp only: drop_map)
  then have "spaced_name (drop 6 s)" by (rule blank_name)
  ultimately show ?thesis by (simp add: spaced_marker_def)
qed

lemma spaced_back_newlines:
  "anywhere spaced_marker (remove_newlines s) \<Longrightarrow> anywhere spaced_marker s"
  unfolding remove_newlines_map
proof (induction s)
  case Nil
  then show ?case by simp
next
  case (Cons c cs)
  from Cons.prems have "spaced_marker (map blank (c # cs)) \<or> anywhere spaced_marker (map blank cs)"
    by simp
  then show ?case
  proof
    assume "spaced_marker (map blank (c # cs))"
    then have "spaced_marker (c # cs)" by (rule blank_marker)
    then show ?thesis by simp
  next
    assume "anywhere spaced_marker (map blank cs)"
    then have "anywhere spaced_marker cs" by (rule Cons.IH)
    then show ?thesis by simp
  qed
qed

lemma back_rstrip:
  assumes mono: "\<And>u z. P u \<Longrightarrow> P (u @ z)"
    and a: "anywhere P (rev (dropWhile is_space (rev u)))"
  shows "anywhere P u"
proof -
  have "rev (takeWhile is_space (rev u) @ dropWhile is_space (rev u)) = u"
    by (simp only: takeWhile_dropWhile_id rev_rev_ident)
  then have u: "u = rev (dropWhile is_space (rev u)) @ rev (takeWhile is_space (rev u))"
    by (simp only: rev_append)
  from mono a have "anywhere P (rev (dropWhile is_space (rev u)) @ rev (takeWhile is_space (rev u)))"
    by (rule anywhere_mono_right)
  with u show ?thesis by simp
qed

lemma decl_rev: "dropWhile is_space (rev prefix_declaration) = rev prefix_declaration"
  by (simp add: prefix_declaration_def is_space_def)

lemma decl_head: "dropWhile is_space (prefix_declaration @ u) = prefix_declaration @ u"
  by (simp add: prefix_declaration_def is_space_def)

lemma decl_strip:
  "strip (prefix_declaration @ u) = prefix_declaration @ rev (dropWhile is_space (rev u))"
proof (cases "\<forall>x\<in>set (rev u). is_space x")
  case True
  then have "dropWhile is_space (rev u @ rev prefix_declaration)
      = dropWhile is_space (rev prefix_declaration)"
    by (intro dropWhile_append2) simp
  moreover from True have "dropWhile is_space (rev u) = []" by simp
  ultimately show ?thesis by (simp add: strip_def decl_head decl_rev)
next
  case False
  then obtain x where "x \<in> set (rev u)" "\<not> is_space x" by blast
  then have "dropWhile is_space (rev u @ rev prefix_declaration)
      = dropWhile is_space (rev u) @ rev prefix_declaration"
    by (rule dropWhile_append1)
  then show ?thesis by (simp add: strip_def decl_head)
qed

lemma decl_collapse:
  "collapse_spaces (prefix_declaration @ t)
     = prefix_declaration @ rev (dropWhile is_space (rev (re_sub m_spaces t)))"
  by (simp add: collapse_spaces_def decl_spaces decl_strip)

lemma spaced_back_rcollapse:
  assumes "anywhere spaced_marker (rev (dropWhile is_space (rev (re_sub m_spaces t))))"
  shows "anywhere spaced_marker t"
proof -
  from assms have "anywhere spaced_marker ([] @ re_sub m_spaces t)"
    using back_rstrip[of spaced_marker] spaced_marker_mono by simp
  then have "anywhere spaced_marker ([] @ t)" by (rule spaced_back_spaces)
  then show ?thesis by simp
qed

lemma decl_add_where':
  "\<exists>t'. add_where (prefix_declaration @ t) = prefix_declaration @ t'
        \<and> (anywhere spaced_marker t' \<longrightarrow> anywhere spaced_marker t)"
proof (cases "py_in (code_points ''WHERE'') (upper (prefix_declaration @ t))")
  case True
  then have "add_where (prefix_declaration @ t) = prefix_declaration @ t"
    by (simp add: add_where_def)
  then show ?thesis by simp
next
  case False
  then have "add_where (prefix_declaration @ t) = prefix_declaration @ re_sub m_add_where t"
    by (simp add: add_where_def decl_add_where)
  moreover have "anywhere spaced_marker (re_sub m_add_where t) \<longrightarrow> anywhere spaced_marker t"
    using spaced_back_add_where[of "[]"] by simp
  ultimately show ?thesis by simp
qed

lemma occurrences_zero: "\<not> py_in p s \<Longrightarrow> occurrences p s = 0"
  by (induction s) auto

lemma decl_occurrences:
  "occurrences prefix_marker (prefix_declaration @ t) = Suc (occurrences prefix_marker t)"
  by (simp add: prefix_declaration_def prefix_marker_def)

lemma repair_shape:
  assumes c: "\<not> anywhere spaced_marker candidate"
  shows "\<exists>t. correct_sparql_syntax_advanced candidate = prefix_declaration @ t
            \<and> \<not> anywhere spaced_marker t"
proof -
  let ?P = "anywhere spaced_marker"
  define q1 where "q1 = remove_newlines candidate"
  define t0 where "t0 = CHR '' '' # q1"
  define t3 where "t3 = re_sub m_glue (re_sub m_where (re_sub m_select t0))"
  define t4 where "t4 = rev (dropWhile is_space (rev (re_sub m_spaces t3)))"
  define t5 where "t5 = re_sub m_dot t4"
  have n1: "\<not> ?P q1" using c spaced_back_newlines unfolding q1_def by blast
  have "\<not> anywhere (prefix prefix_marker) q1"
    using n1 anywhere_weaken[of "prefix prefix_marker" spaced_marker q1] marker_is_spaced
    by blast
  then have "\<not> py_in prefix_marker q1" by (simp add: py_in_anywhere)
  then have s2: "add_prefix q1 = prefix_declaration @ t0" by (simp add: add_prefix_def t0_def)
  have n0: "\<not> ?P t0" using n1 unfolding t0_def by (auto dest: spaced_marker_head)
  have n3: "\<not> ?P t3"
  proof
    assume "?P t3"
    then have "?P ([] @ re_sub m_glue (re_sub m_where (re_sub m_select t0)))"
      by (simp add: t3_def)
    then have "?P ([] @ re_sub m_where (re_sub m_select t0))" by (rule spaced_back_glue)
    then have "?P ([] @ re_sub m_select t0)" by (rule spaced_back_where)
    then have "?P ([] @ t0)" by (rule spaced_back_select)
    with n0 show False by simp
  qed
  have n4: "\<not> ?P t4" using n3 spaced_back_rcollapse unfolding t4_def by blast
  have n5: "\<not> ?P t5"
  proof
    assume "?P t5"
    then have "?P ([] @ re_sub m_dot t4)" by (simp add: t5_def)
    then have "?P ([] @ t4)" by (rule spaced_back_dot)
    with n4 show False by simp
  qed
  obtain t6 where t6: "add_where (prefix_declaration @ t5) = prefix_declaration @ t6"
    and b6: "?P t6 \<longrightarrow> ?P t5" using decl_add_where' by blast
  from b6 n5 have n6: "\<not> ?P t6" by blast
  define t7 where "t7 = rev (dropWhile is_space (rev (re_sub m_spaces t6)))"
  have n7: "\<not> ?P t7" using n6 spaced_back_rcollapse unfolding t7_def by blast
  have "correct_sparql_syntax_advanced candidate = prefix_declaration @ t7"
    unfolding repair_unfold
    by (simp only: q1_def[symmetric] s2 decl_select decl_where decl_glue t3_def[symmetric]
        decl_collapse t4_def[symmetric] decl_dot t5_def[symmetric] t6 t7_def[symmetric])
  with n7 show ?thesis by blast
qed

text \<open>
  Claim C7: for every candidate that contains nowhere the keyword \<open>PREFIX\<close>, white space (one
  or more characters, line breaks included) and \<open>progettoMuseo:\<close> in a row, the repaired text
  starts with the prefix declaration and contains \<open>PREFIX progettoMuseo:\<close> exactly once.
  The absence of the literal text \<open>PREFIX progettoMuseo:\<close> alone is not enough: the line
  breaks are replaced before the test, and runs of white space are collapsed after it.
\<close>

theorem prefix_prepended_once:
  assumes "\<not> anywhere spaced_marker candidate"
  shows "prefix prefix_declaration (correct_sparql_syntax_advanced candidate)
       \<and> occurrences prefix_marker (correct_sparql_syntax_advanced candidate) = 1"
proof -
  from assms obtain t where t: "correct_sparql_syntax_advanced candidate = prefix_declaration @ t"
    and n: "\<not> anywhere spaced_marker t" using repair_shape by blast
  have "\<not> anywhere (prefix prefix_marker) t"
    using n anywhere_weaken[of "prefix prefix_marker" spaced_marker t] marker_is_spaced
    by blast
  then have "occurrences prefix_marker t = 0" by (simp add: py_in_anywhere occurrences_zero)
  then show ?thesis by (simp add: t decl_occurrences)
qed

theorem prefix_prepended_once_witness:
  "\<not> anywhere spaced_marker ''SELECT?x{?x a progettoMuseo:Opera}''
   \<and> prefix prefix_declaration
        (correct_sparql_syntax_advanced ''SELECT?x{?x a progettoMuseo:Opera}'')
   \<and> occurrences prefix_marker
        (correct_sparql_syntax_advanced ''SELECT?x{?x a progettoMuseo:Opera}'') = 1"
proof -
  have h: "\<not> anywhere spaced_marker ''SELECT?x{?x a progettoMuseo:Opera}''"
    by code_simp
  from prefix_prepended_once[OF h] h show ?thesis by (simp only: simp_thms)
qed

text \<open>
  A candidate without the literal text \<open>PREFIX progettoMuseo:\<close> (two spaces after the
  keyword) whose repaired form contains it twice: the declaration is prepended, and the
  collapse of the two spaces then turns the candidate's own declaration into a second one.
\<close>

theorem prefix_twice_counterexample:
  "\<not> py_in prefix_marker ''PREFIX  progettoMuseo: <urn:m#> ASK {}''
   \<and> occurrences prefix_marker
        (correct_sparql_syntax_advanced ''PREFIX  progettoMuseo: <urn:m#> ASK {}'') = 2"
  by code_simp

end
